theory Spec2Isabelle
  imports Main "HOL-Library.Multiset" "HOL-Library.Sublist"
begin

section \<open>Python values, errors and the builtins the scripts rely on\<close>

text \<open>
  The two scripts \<^verbatim>\<open>bfcl_ingestion.py\<close> and \<^verbatim>\<open>bfcl_search.py\<close> handle JSON data and
  the response objects of the memory backends. A value is a JSON value or a class
  instance, given by its \<^verbatim>\<open>__dict__\<close>. A dict is an association list with string
  keys, read with \<open>map_of\<close>.
\<close>

datatype pyval =
    PNone
  | PBool bool
  | PInt int
  | PStr string
  | PList "pyval list"
  | PDict "(string \<times> pyval) list"
  | PObj "(string \<times> pyval) list"

type_synonym pydict = "(string \<times> pyval) list"

text \<open>Every \<^verbatim>\<open>raise\<close> of the code and of the builtins it calls is a value.\<close>

datatype error =
    KeyError string
  | TypeError
  | ValueError string
  | IndexError
  | AttributeError string
  | JSONDecodeError
  | BackendError string
  | OSError string

text \<open>\<^verbatim>\<open>d.get(k)\<close>: the value stored under \<open>k\<close>, and \<^verbatim>\<open>None\<close> when there is none.\<close>

definition dict_get :: "pydict \<Rightarrow> string \<Rightarrow> pyval" where
  "dict_get d k = (case map_of d k of None \<Rightarrow> PNone | Some v \<Rightarrow> v)"

text \<open>\<^verbatim>\<open>v[k]\<close> for a string \<open>k\<close>: only a dict can be subscripted by a string.\<close>

fun py_getitem :: "pyval \<Rightarrow> string \<Rightarrow> error + pyval" where
  "py_getitem (PDict d) k = (case map_of d k of None \<Rightarrow> Inl (KeyError k) | Some v \<Rightarrow> Inr v)"
| "py_getitem _ k = Inl TypeError"

text \<open>\<^verbatim>\<open>v[0]\<close>.\<close>

fun py_getitem0 :: "pyval \<Rightarrow> error + pyval" where
  "py_getitem0 (PList xs) = (case xs of [] \<Rightarrow> Inl IndexError | x # _ \<Rightarrow> Inr x)"
| "py_getitem0 (PStr s) = (case s of [] \<Rightarrow> Inl IndexError | c # _ \<Rightarrow> Inr (PStr [c]))"
| "py_getitem0 (PDict d) = Inl (KeyError ''0'')"
| "py_getitem0 _ = Inl TypeError"

text \<open>\<^verbatim>\<open>v.name\<close>: attribute access on a class instance.\<close>

fun py_getattr :: "pyval \<Rightarrow> string \<Rightarrow> error + pyval" where
  "py_getattr (PObj a) name =
     (case map_of a name of None \<Rightarrow> Inl (AttributeError name) | Some v \<Rightarrow> Inr v)"
| "py_getattr _ name = Inl (AttributeError name)"

text \<open>
  Iteration (\<^verbatim>\<open>for x in v\<close>, \<^verbatim>\<open>list.extend(v)\<close>): a list gives its elements, a string
  its characters, a dict its keys; the other values are not iterable.
\<close>

fun py_iter :: "pyval \<Rightarrow> error + pyval list" where
  "py_iter (PList xs) = Inr xs"
| "py_iter (PStr s) = Inr (map (\<lambda>c. PStr [c]) s)"
| "py_iter (PDict d) = Inr (map (\<lambda>kv. PStr (fst kv)) d)"
| "py_iter _ = Inl TypeError"

text \<open>
  Membership in a Python \<^verbatim>\<open>set\<close> hashes the value and compares with \<^verbatim>\<open>==\<close>.
  \<open>hash_key\<close> gives the key a value is stored under: \<^verbatim>\<open>True == 1\<close> and
  \<^verbatim>\<open>False == 0\<close>, lists and dicts are unhashable, and so are the response models of
  the backends (they define equality by fields and no hash).
\<close>

datatype hkey = KNone | KInt int | KStr string

fun hash_key :: "pyval \<Rightarrow> error + hkey" where
  "hash_key PNone = Inr KNone"
| "hash_key (PBool b) = Inr (KInt (if b then 1 else 0))"
| "hash_key (PInt i) = Inr (KInt i)"
| "hash_key (PStr s) = Inr (KStr s)"
| "hash_key (PList xs) = Inl TypeError"
| "hash_key (PDict d) = Inl TypeError"
| "hash_key (PObj a) = Inl TypeError"

text \<open>\<^verbatim>\<open>os.getenv(name)\<close> reads the process environment.\<close>

type_synonym env = "string \<rightharpoonup> string"

definition getenv_default :: "env \<Rightarrow> string \<Rightarrow> string \<Rightarrow> string" where
  "getenv_default env name dflt = (case env name of None \<Rightarrow> dflt | Some v \<Rightarrow> v)"

text \<open>An optional string inside an f-string: \<^verbatim>\<open>None\<close> prints as \<^verbatim>\<open>None\<close>.\<close>

definition fmt_opt :: "string option \<Rightarrow> string" where
  "fmt_opt v = (case v of None \<Rightarrow> ''None'' | Some s \<Rightarrow> s)"

subsection \<open>Files opened for appending\<close>

text \<open>
  A file object holds what is on disk and the lines written but not flushed yet.
  \<^verbatim>\<open>f.write(line)\<close> puts the line into the buffer, or raises and leaves the buffer as it
  was (the lines are short enough to fit the buffer). \<^verbatim>\<open>f.flush()\<close> hands the buffer to
  the device: the device takes all of it, or it raises and the buffer stays, so that
  a later flush that succeeds writes these lines too. Closing flushes; when that flush
  raises, the close raises and the buffered lines are lost. The device is a parameter:
  the lines it refuses, and which of the successive flushes fail.
\<close>

record 'l device =
  write_raises :: "'l \<Rightarrow> error option"
  flush_raises :: "nat \<Rightarrow> error option"

record 'l pyfile =
  on_disk :: "'l list"
  pending :: "'l list"
  flush_count :: nat

definition open_append :: "'l list option \<Rightarrow> 'l pyfile" where
  "open_append content_before =
     \<lparr>on_disk = (case content_before of None \<Rightarrow> [] | Some ls \<Rightarrow> ls), pending = [],
      flush_count = 0\<rparr>"

definition file_write :: "'l device \<Rightarrow> 'l \<Rightarrow> 'l pyfile \<Rightarrow> error + 'l pyfile" where
  "file_write dev line f =
     (case write_raises dev line of
        Some e \<Rightarrow> Inl e
      | None \<Rightarrow> Inr (f\<lparr>pending := pending f @ [line]\<rparr>))"

definition file_flush :: "'l device \<Rightarrow> 'l pyfile \<Rightarrow> 'l pyfile \<times> error option" where
  "file_flush dev f =
     (if pending f = [] then (f, None)
      else
        (case flush_raises dev (flush_count f) of
           Some e \<Rightarrow> (f\<lparr>flush_count := Suc (flush_count f)\<rparr>, Some e)
         | None \<Rightarrow>
             (f\<lparr>on_disk := on_disk f @ pending f, pending := [],
                flush_count := Suc (flush_count f)\<rparr>, None)))"

definition file_close :: "'l device \<Rightarrow> 'l pyfile \<Rightarrow> 'l list \<times> error option" where
  "file_close dev f = (case file_flush dev f of (f', err) \<Rightarrow> (on_disk f', err))"

section \<open>Search: \<^verbatim>\<open>bfcl_search.py\<close>\<close>

subsection \<open>Test cases, results and the log\<close>

record message =
  role :: string
  content :: string

record test_case =
  test_id :: string
  question :: "message list list option"

record search_result =
  result_id :: string
  questions :: "string list"
  memories :: "pydict list"
  mem_context :: string

text \<open>What the scripts print with \<^verbatim>\<open>tqdm.write\<close> and \<^verbatim>\<open>print\<close> on a failure.\<close>

datatype log_entry =
    SearchError string string error
  | ContextError string error
  | TestCaseError string error
  | ConversationError string error

text \<open>The backend: \<^verbatim>\<open>client.search(query=..., user_id=..., top_k=...)\<close>.\<close>

type_synonym search_client = "string \<Rightarrow> string \<Rightarrow> nat \<Rightarrow> error + pyval"

subsection \<open>\<^verbatim>\<open>search_memory\<close>\<close>

text \<open>The comprehension that keeps the tool trajectory memories of a response.\<close>

fun tool_trajectory_filter :: "pyval list \<Rightarrow> error + pyval list" where
  "tool_trajectory_filter [] = Inr []"
| "tool_trajectory_filter (mem # rest) =
     (case py_getitem mem ''metadata'' of
        Inl e \<Rightarrow> Inl e
      | Inr md \<Rightarrow>
         (case py_getitem md ''memory_type'' of
            Inl e \<Rightarrow> Inl e
          | Inr ty \<Rightarrow>
             (case tool_trajectory_filter rest of
                Inl e \<Rightarrow> Inl e
              | Inr ms \<Rightarrow> Inr (if ty = PStr ''ToolTrajectoryMemory'' then mem # ms else ms))))"

definition search_memory ::
  "search_client \<Rightarrow> env \<Rightarrow> string \<Rightarrow> string \<Rightarrow> nat \<Rightarrow> error + pyval" where
  "search_memory client env query test_entry_id top_k =
     (let version = getenv_default env ''VERSION'' ''default_version'';
          frame = env ''FRAME'';
          user_id = test_entry_id @ ''_'' @ fmt_opt frame @ ''_'' @ version
      in case client query user_id top_k of
           Inl e \<Rightarrow> Inl e
         | Inr search_rsps \<Rightarrow>
            if frame = Some ''memos-api'' then
              (case py_getitem search_rsps ''tool_mem'' of
                 Inl e \<Rightarrow> Inl e
               | Inr tm \<Rightarrow>
                  (case py_getitem0 tm of
                     Inl e \<Rightarrow> Inl e
                   | Inr tm0 \<Rightarrow>
                      (case py_getitem tm0 ''memories'' of
                         Inl e \<Rightarrow> Inl e
                       | Inr ms \<Rightarrow>
                          (case py_iter ms of
                             Inl e \<Rightarrow> Inl e
                           | Inr xs \<Rightarrow>
                              (case tool_trajectory_filter xs of
                                 Inl e \<Rightarrow> Inl e
                               | Inr ys \<Rightarrow> Inr (PList ys))))))
            else if frame = Some ''mem0'' then py_getitem search_rsps ''results''
            else if frame = Some ''supermemory'' then py_getattr search_rsps ''results''
            else Inl (ValueError (''Invalid frame: '' @ fmt_opt frame)))"

subsection \<open>\<^verbatim>\<open>search_single_test_case\<close>\<close>

text \<open>The user questions of a test case, turn by turn.\<close>

definition all_questions :: "test_case \<Rightarrow> string list" where
  "all_questions tc =
     (case question tc of
        None \<Rightarrow> []
      | Some turns \<Rightarrow> concat (map (\<lambda>turn. map content (filter (\<lambda>msg. role msg = ''user'') turn)) turns))"

text \<open>
  The search loop: one \<open>search_memory\<close> call per question, \<^verbatim>\<open>mem_list.extend\<close> on
  success, a log line and \<^verbatim>\<open>continue\<close> on any exception.
\<close>

fun search_loop ::
  "search_client \<Rightarrow> env \<Rightarrow> string \<Rightarrow> nat \<Rightarrow> string list \<Rightarrow> log_entry list \<Rightarrow> pyval list
     \<Rightarrow> log_entry list \<times> pyval list" where
  "search_loop client env tid top_k [] log mem_list = (log, mem_list)"
| "search_loop client env tid top_k (q # qs) log mem_list =
     (case search_memory client env q tid top_k of
        Inl e \<Rightarrow> search_loop client env tid top_k qs (log @ [SearchError tid (take 50 q) e]) mem_list
      | Inr ms \<Rightarrow>
         (case py_iter ms of
            Inl e \<Rightarrow>
              search_loop client env tid top_k qs (log @ [SearchError tid (take 50 q) e]) mem_list
          | Inr xs \<Rightarrow> search_loop client env tid top_k qs log (mem_list @ xs)))"

text \<open>
  The conversion of a memory to a dict: a dict stays, a class instance gives its
  \<^verbatim>\<open>__dict__\<close>, and any other value goes through the builtin \<^verbatim>\<open>dict(item)\<close>, which is
  the parameter \<open>py_dict\<close>.
\<close>

fun to_dict :: "(pyval \<Rightarrow> error + pydict) \<Rightarrow> pyval \<Rightarrow> error + pydict" where
  "to_dict py_dict (PDict d) = Inr d"
| "to_dict py_dict (PObj a) = Inr a"
| "to_dict py_dict item = py_dict item"

text \<open>The deduplication loop, with its \<^verbatim>\<open>seen_ids\<close> and \<^verbatim>\<open>dedup_mem_list\<close>.\<close>

fun dedup_loop ::
  "(pyval \<Rightarrow> error + pydict) \<Rightarrow> pyval list \<Rightarrow> hkey set \<Rightarrow> pydict list \<Rightarrow> error + pydict list" where
  "dedup_loop py_dict [] seen_ids dedup_mem_list = Inr dedup_mem_list"
| "dedup_loop py_dict (item # rest) seen_ids dedup_mem_list =
     (case to_dict py_dict item of
        Inl e \<Rightarrow> Inl e
      | Inr d \<Rightarrow>
         (case hash_key (dict_get d ''id'') of
            Inl e \<Rightarrow> Inl e
          | Inr item_id \<Rightarrow>
             if item_id \<notin> seen_ids
             then dedup_loop py_dict rest (insert item_id seen_ids) (dedup_mem_list @ [d])
             else dedup_loop py_dict rest seen_ids dedup_mem_list))"


subsection \<open>\<^verbatim>\<open>create_mem_context\<close>\<close>

text \<open>
  Exceptions propagate through a sequence of steps as in \<open>bind_err\<close>; \<open>map_err\<close> is a
  list comprehension whose element expression can raise: the first failure, from left
  to right, ends it.
\<close>

definition bind_err :: "error + 'a \<Rightarrow> ('a \<Rightarrow> error + 'b) \<Rightarrow> error + 'b" where
  "bind_err m f = (case m of Inl e \<Rightarrow> Inl e | Inr x \<Rightarrow> f x)"

fun map_err :: "('a \<Rightarrow> error + 'b) \<Rightarrow> 'a list \<Rightarrow> error + 'b list" where
  "map_err f [] = Inr []"
| "map_err f (x # xs) =
     (case f x of
        Inl e \<Rightarrow> Inl e
      | Inr y \<Rightarrow> (case map_err f xs of Inl e \<Rightarrow> Inl e | Inr ys \<Rightarrow> Inr (y # ys)))"

text \<open>
  The text builtins. \<open>str_builtin\<close> is \<^verbatim>\<open>str(v)\<close> on a value that is not a string,
  \<open>json_text\<close> the text \<^verbatim>\<open>json.dumps\<close> gives a serialisable value, and
  \<open>dict_builtin\<close> is \<^verbatim>\<open>dict(v)\<close> on a value that is neither a dict nor a class
  instance. They are parameters of the model.
\<close>

record pylib =
  dict_builtin :: "pyval \<Rightarrow> error + pydict"
  str_builtin :: "pyval \<Rightarrow> string"
  json_text :: "pyval \<Rightarrow> string"

fun py_format :: "pylib \<Rightarrow> pyval \<Rightarrow> string" where
  "py_format lib (PStr s) = s"
| "py_format lib v = str_builtin lib v"

text \<open>\<^verbatim>\<open>json.dumps\<close> raises \<^verbatim>\<open>TypeError\<close> on a class instance, at any depth.\<close>

fun serializable :: "pyval \<Rightarrow> bool" where
  "serializable (PList xs) = list_all serializable xs"
| "serializable (PDict d) = list_all serializable (map snd d)"
| "serializable (PObj a) = False"
| "serializable _ = True"

definition json_dumps :: "pylib \<Rightarrow> pyval \<Rightarrow> error + string" where
  "json_dumps lib v = (if serializable v then Inr (json_text lib v) else Inl TypeError)"

definition newline :: string where
  "newline = [CHR 0x0A]"

fun py_join :: "string \<Rightarrow> string list \<Rightarrow> string" where
  "py_join sep [] = []"
| "py_join sep [x] = x"
| "py_join sep (x # y # ys) = x @ sep @ py_join sep (y # ys)"

text \<open>
  \<^verbatim>\<open>str.strip()\<close> removes the leading and trailing whitespace; a character is a code
  point below 256.
\<close>

definition is_space :: "char \<Rightarrow> bool" where
  "is_space c = (of_char c \<in> {9, 10, 11, 12, 13, 28, 29, 30, 31, 32, 133, 160 :: nat})"

definition py_strip :: "string \<Rightarrow> string" where
  "py_strip s = rev (dropWhile is_space (rev (dropWhile is_space s)))"

text \<open>One line of the tool memory context: the f-string of the \<^verbatim>\<open>memos-api\<close> branch.\<close>

definition tool_line :: "pylib \<Rightarrow> nat \<times> pyval \<Rightarrow> error + string" where
  "tool_line lib p =
     (case p of (i, item) \<Rightarrow>
        bind_err (py_getitem item ''memory'') (\<lambda>m.
        bind_err (py_getitem item ''metadata'') (\<lambda>md.
        bind_err (py_getitem md ''experience'') (\<lambda>ex.
        bind_err (py_getitem item ''metadata'') (\<lambda>md'.
        bind_err (py_getitem md' ''tool_used_status'') (\<lambda>tus.
        bind_err (json_dumps lib tus) (\<lambda>js.
          Inr (py_format lib (PInt (int i + 1)) @ ''. tool_trajectory: '' @ py_format lib m
               @ newline @ ''experience: '' @ py_format lib ex
               @ newline @ ''tool_used_status: '' @ js))))))))"

definition mem0_line :: "pylib \<Rightarrow> pydict \<Rightarrow> error + string" where
  "mem0_line lib memory =
     bind_err (py_getitem (PDict memory) ''created_at'') (\<lambda>t.
     bind_err (py_getitem (PDict memory) ''memory'') (\<lambda>m.
       Inr (py_format lib t @ '': '' @ py_format lib m)))"

text \<open>\<^verbatim>\<open>str.join\<close> accepts strings only.\<close>

fun str_items :: "pyval list \<Rightarrow> error + string list" where
  "str_items [] = Inr []"
| "str_items (PStr s # vs) = (case str_items vs of Inl e \<Rightarrow> Inl e | Inr ss \<Rightarrow> Inr (s # ss))"
| "str_items (v # vs) = Inl TypeError"

definition create_mem_context :: "pylib \<Rightarrow> env \<Rightarrow> pydict list \<Rightarrow> error + string" where
  "create_mem_context lib env mems =
     (let frame = env ''FRAME'' in
      bind_err
        (if frame = Some ''memos-api'' then
           (let text_mem_context = [] in
            bind_err (tool_trajectory_filter (map PDict mems)) (\<lambda>tool_trajectory_memories.
            bind_err (map_err (tool_line lib) (enumerate 0 tool_trajectory_memories)) (\<lambda>lines.
              (let tool_mem_context = py_join newline lines;
                   text_mem_context' =
                     (if text_mem_context \<noteq> [] then ''Fact Memory:'' @ newline @ text_mem_context
                      else text_mem_context);
                   tool_mem_context' =
                     (if tool_mem_context \<noteq> [] then ''Tool Memory:'' @ newline @ tool_mem_context
                      else tool_mem_context)
               in Inr (text_mem_context' @ newline @ tool_mem_context')))))
         else if frame = Some ''mem0'' then
           bind_err (map_err (mem0_line lib) mems) (\<lambda>lines. Inr (py_join newline lines))
         else if frame = Some ''supermemory'' then
           bind_err (map_err (\<lambda>memory. py_getitem (PDict memory) ''memory'') mems) (\<lambda>vs.
           bind_err (str_items vs) (\<lambda>lines. Inr (py_join newline lines)))
         else Inl (ValueError (''Invalid frame: '' @ fmt_opt frame)))
        (\<lambda>mem_context. Inr (py_strip mem_context)))"

subsection \<open>\<^verbatim>\<open>search_single_test_case\<close>, whole\<close>

definition search_single_test_case ::
  "pylib \<Rightarrow> search_client \<Rightarrow> env \<Rightarrow> test_case \<Rightarrow> nat
     \<Rightarrow> log_entry list \<times> (error + search_result)" where
  "search_single_test_case lib client env tc top_k =
     (let test_entry_id = test_id tc;
          qs = all_questions tc
      in case search_loop client env test_entry_id top_k qs [] [] of
           (log, mem_list) \<Rightarrow>
             (case dedup_loop (dict_builtin lib) mem_list {} [] of
                Inl e \<Rightarrow> (log, Inl e)
              | Inr dedup_mem_list \<Rightarrow>
                 (case (if dedup_mem_list \<noteq> [] then
                          (case create_mem_context lib env dedup_mem_list of
                             Inl e \<Rightarrow> (log @ [ContextError test_entry_id e], [])
                           | Inr c \<Rightarrow> (log, c))
                        else (log, [])) of
                    (log', ctx) \<Rightarrow>
                      (log', Inr \<lparr>result_id = test_entry_id, questions = qs,
                                 memories = dedup_mem_list, mem_context = ctx\<rparr>))))"

subsection \<open>The Result Store and \<^verbatim>\<open>collect_test_cases\<close>\<close>

text \<open>
  \<^verbatim>\<open>search_results.jsonl\<close> is a list of lines, or absent. A line is the JSON value it
  encodes (what \<^verbatim>\<open>json.dumps\<close> wrote and \<^verbatim>\<open>json.loads\<close> reads back), or text that does
  not parse.
\<close>

datatype store_line = JsonLine pyval | BadLine string

type_synonym store = "store_line list option"

fun json_loads :: "store_line \<Rightarrow> error + pyval" where
  "json_loads (JsonLine v) = Inr v"
| "json_loads (BadLine s) = Inl JSONDecodeError"

record args =
  run_ids :: bool
  allow_overwrite :: bool
  num_threads :: nat

text \<open>The loop that reads the identifiers of the stored results into \<^verbatim>\<open>existing_ids\<close>.\<close>

fun load_existing_ids :: "store_line list \<Rightarrow> hkey set \<Rightarrow> error + hkey set" where
  "load_existing_ids [] existing_ids = Inr existing_ids"
| "load_existing_ids (line # rest) existing_ids =
     (case json_loads line of
        Inl e \<Rightarrow> Inl e
      | Inr entry \<Rightarrow>
         (case py_getitem entry ''id'' of
            Inl e \<Rightarrow> Inl e
          | Inr v \<Rightarrow>
             (case hash_key v of
                Inl e \<Rightarrow> Inl e
              | Inr k \<Rightarrow> load_existing_ids rest (insert k existing_ids))))"

text \<open>
  \<open>sort_key_fn\<close> is \<^verbatim>\<open>sort_key\<close> of \<^verbatim>\<open>bfcl_eval.utils\<close>, which is not part of the two
  scripts: a parameter. \<^verbatim>\<open>sorted\<close> is stable, as \<open>sort_key\<close> is. The function returns
  the file as it leaves it and the test cases to search.
\<close>

definition collect_test_cases ::
  "(test_case \<Rightarrow> 'k::linorder) \<Rightarrow> args \<Rightarrow> store \<Rightarrow> test_case list
     \<Rightarrow> error + (store \<times> test_case list)" where
  "collect_test_cases sort_key_fn a search_result_file all_test_entries_involved =
     (case (if search_result_file \<noteq> None \<and> \<not> allow_overwrite a then
              (case load_existing_ids (the search_result_file) {} of
                 Inl e \<Rightarrow> Inl e
               | Inr ids \<Rightarrow> Inr (search_result_file, ids))
            else if search_result_file \<noteq> None \<and> allow_overwrite a \<and> \<not> run_ids a then
              Inr (None, {})
            else Inr (search_result_file, {})) of
        Inl e \<Rightarrow> Inl e
      | Inr (file', existing_ids) \<Rightarrow>
          Inr (file',
               sort_key sort_key_fn
                 (filter (\<lambda>test_case. KStr (test_id test_case) \<notin> existing_ids)
                    all_test_entries_involved)))"

text \<open>
  \<^verbatim>\<open>get_involved_test_entries\<close>: the entries named in the ID file when \<^verbatim>\<open>--run-ids\<close> is
  set, the entries of the chosen categories otherwise. The three loaders come from
  \<^verbatim>\<open>bfcl_eval.utils\<close> and are parameters.
\<close>

definition get_involved_test_entries ::
  "('c list \<times> test_case list) \<Rightarrow> ('t \<Rightarrow> 'c list) \<Rightarrow> ('c \<Rightarrow> test_case list) \<Rightarrow> 't \<Rightarrow> bool
     \<Rightarrow> 'c list \<times> test_case list" where
  "get_involved_test_entries load_test_entries_from_id_file parse_test_category_argument
       load_dataset_entry test_category_args run_ids_flag =
     (if run_ids_flag then load_test_entries_from_id_file
      else (let all_test_categories = parse_test_category_argument test_category_args
            in (all_test_categories, concat (map load_dataset_entry all_test_categories))))"


subsection \<open>\<^verbatim>\<open>generate_search_results\<close> and \<^verbatim>\<open>main\<close>\<close>

text \<open>
  \<^verbatim>\<open>get_client\<close> picks the client class by the \<^verbatim>\<open>FRAME\<close> environment value; \<open>clients\<close>
  gives the instance of each class.
\<close>

definition get_client :: "(string \<Rightarrow> 'c) \<Rightarrow> env \<Rightarrow> error + 'c" where
  "get_client clients env =
     (let frame = env ''FRAME'' in
      if frame = Some ''memobase'' then Inr (clients ''memobase'')
      else if frame = Some ''memos-api'' then Inr (clients ''memos-api'')
      else if frame = Some ''memos-api-online'' then Inr (clients ''memos-api-online'')
      else if frame = Some ''memu'' then Inr (clients ''memu'')
      else if frame = Some ''supermemory'' then Inr (clients ''supermemory'')
      else if frame = Some ''mem0'' then Inr (clients ''mem0'')
      else Inl (ValueError (''Invalid frame: '' @ fmt_opt frame)))"

text \<open>The result dict, as \<^verbatim>\<open>json.dumps\<close> receives it.\<close>

definition result_value :: "search_result \<Rightarrow> pyval" where
  "result_value r =
     PDict [(''id'', PStr (result_id r)),
            (''questions'', PList (map PStr (questions r))),
            (''memories'', PList (map PDict (memories r))),
            (''mem_context'', PStr (mem_context r))]"

definition json_line :: "search_result \<Rightarrow> error + store_line" where
  "json_line r =
     (if serializable (result_value r) then Inr (JsonLine (result_value r)) else Inl TypeError)"

record search_run =
  result_file :: "store_line pyfile"
  search_pbar :: nat
  search_log :: "log_entry list"

text \<open>
  A future is a submitted test case with what its worker printed and returned. The body
  of the \<^verbatim>\<open>as_completed\<close> loop writes the line of a result and flushes; an exception of
  the worker, of \<^verbatim>\<open>json.dumps\<close>, of the write or of the flush is printed with the
  identifier of the test case.
\<close>

type_synonym search_future = "test_case \<times> log_entry list \<times> (error + search_result)"

definition search_step ::
  "store_line device \<Rightarrow> search_run \<Rightarrow> search_future \<Rightarrow> search_run" where
  "search_step dev st fut =
     (case fut of (test_case, wlog, outcome) \<Rightarrow>
        (let st1 = st\<lparr>search_log := search_log st @ wlog\<rparr>;
             failed = (\<lambda>f e. st1\<lparr>result_file := f,
                                  search_log := search_log st1 @ [TestCaseError (test_id test_case) e],
                                  search_pbar := search_pbar st1 + 1\<rparr>)
         in case outcome of
              Inl e \<Rightarrow> failed (result_file st1) e
            | Inr result \<Rightarrow>
               (case json_line result of
                  Inl e \<Rightarrow> failed (result_file st1) e
                | Inr line \<Rightarrow>
                   (case file_write dev line (result_file st1) of
                      Inl e \<Rightarrow> failed (result_file st1) e
                    | Inr f1 \<Rightarrow>
                       (case file_flush dev f1 of
                          (f2, Some e) \<Rightarrow> failed f2 e
                        | (f2, None) \<Rightarrow>
                            st1\<lparr>result_file := f2, search_pbar := search_pbar st1 + 1\<rparr>)))))"

text \<open>\<open>as_completed\<close> gives the futures in the order the workers finish.\<close>

definition search_futures ::
  "pylib \<Rightarrow> search_client \<Rightarrow> env \<Rightarrow> test_case list \<Rightarrow> search_future list" where
  "search_futures lib client env test_cases_total =
     map (\<lambda>test_case. (test_case, search_single_test_case lib client env test_case 10))
       test_cases_total"

text \<open>
  \<open>generate_search_results\<close> returns the state after the loop, or raises, and leaves the
  Result Store file. \<^verbatim>\<open>get_client\<close> raises before the file is opened. Opening in mode
  \<^verbatim>\<open>a\<close> creates the file when it is absent. Leaving the \<^verbatim>\<open>with\<close> block closes the
  file: a close that raises ends the function with that exception.
\<close>

definition generate_search_results ::
  "pylib \<Rightarrow> (string \<Rightarrow> search_client) \<Rightarrow> env \<Rightarrow> (search_future list \<Rightarrow> search_future list)
     \<Rightarrow> store_line device \<Rightarrow> store \<Rightarrow> test_case list \<Rightarrow> (error + search_run) \<times> store" where
  "generate_search_results lib clients env as_completed dev search_result_file test_cases_total =
     (case get_client clients env of
        Inl e \<Rightarrow> (Inl e, search_result_file)
      | Inr client \<Rightarrow>
          (let f = open_append search_result_file;
               futures = search_futures lib client env test_cases_total;
               run = foldl (search_step dev)
                       \<lparr>result_file = f, search_pbar = 0, search_log = []\<rparr>
                       (as_completed futures)
           in case file_close dev (result_file run) of
                (disk, None) \<Rightarrow> (Inr run, Some disk)
              | (disk, Some e) \<Rightarrow> (Inl e, Some disk)))"

text \<open>
  \<^verbatim>\<open>main\<close>, from the entries \<open>get_involved_test_entries\<close> returned: the number of test
  cases the last message reports and the log, or the exception that ended the script,
  and the Result Store file after the run.
\<close>

definition main_search ::
  "pylib \<Rightarrow> (string \<Rightarrow> search_client) \<Rightarrow> env \<Rightarrow> (search_future list \<Rightarrow> search_future list)
     \<Rightarrow> store_line device \<Rightarrow> (test_case \<Rightarrow> 'k::linorder) \<Rightarrow> args \<Rightarrow> store
     \<Rightarrow> test_case list \<Rightarrow> (error + nat \<times> log_entry list) \<times> store" where
  "main_search lib clients env as_completed dev sort_key_fn a search_result_file
       all_test_entries_involved =
     (case collect_test_cases sort_key_fn a search_result_file all_test_entries_involved of
        Inl e \<Rightarrow> (Inl e, search_result_file)
      | Inr (file', test_cases_total) \<Rightarrow>
          if length test_cases_total = 0 then (Inr (0, []), file')
          else
            (case generate_search_results lib clients env as_completed dev file'
                    test_cases_total of
               (Inl e, file'') \<Rightarrow> (Inl e, file'')
             | (Inr run, file'') \<Rightarrow> (Inr (length test_cases_total, search_log run), file'')))"

section \<open>Ingestion: \<^verbatim>\<open>bfcl_ingestion.py\<close>\<close>

record conversation =
  sample_id :: string
  trajectory :: "message list"

record chat_message = message +
  chat_time :: string

text \<open>
  The call \<^verbatim>\<open>client.add(...)\<close> with its arguments; their number and kind depend on the
  backend.
\<close>

datatype add_call =
    AddMessages "chat_message list" string
  | AddConv "message list" string string
  | AddTrajectory "message list" string
  | AddAtTime "message list" string string
  | AddAtTimestamp "message list" string int

fun add_user_id :: "add_call \<Rightarrow> string" where
  "add_user_id (AddMessages ms u) = u"
| "add_user_id (AddConv t u c) = u"
| "add_user_id (AddTrajectory t u) = u"
| "add_user_id (AddAtTime t u d) = u"
| "add_user_id (AddAtTimestamp t u n) = u"

type_synonym add_client = "add_call \<Rightarrow> error + unit"

text \<open>
  The clock: \<open>now_iso i\<close> is \<^verbatim>\<open>datetime.now().isoformat()\<close> at the \<open>i\<close>-th reading of one
  call, \<open>now_timestamp\<close> is \<^verbatim>\<open>int(datetime.now().timestamp())\<close>.
\<close>

record clock =
  now_iso :: "nat \<Rightarrow> string"
  now_timestamp :: int

definition ingest_user_id :: "env \<Rightarrow> string \<Rightarrow> conversation \<Rightarrow> string" where
  "ingest_user_id env frame conversation =
     (let version = getenv_default env ''VERSION'' ''default_version''
      in sample_id conversation @ ''_'' @ frame @ ''_'' @ version)"

text \<open>The loop of the \<^verbatim>\<open>memobase\<close> and \<^verbatim>\<open>supermemory\<close> branches.\<close>

definition build_messages :: "clock \<Rightarrow> message list \<Rightarrow> chat_message list" where
  "build_messages clk traj =
     map (\<lambda>p. case p of (idx, msg) \<Rightarrow>
            \<lparr>role = role msg, content = take 8000 (content msg), chat_time = now_iso clk idx\<rparr>)
       (enumerate 0 traj)"

definition process_single_conversation ::
  "conversation \<Rightarrow> add_client \<Rightarrow> string \<Rightarrow> env \<Rightarrow> clock \<Rightarrow> error + unit" where
  "process_single_conversation conversation client frame env clk =
     (let user_id = ingest_user_id env frame conversation;
          traj = trajectory conversation
      in if frame = ''memobase'' then client (AddMessages (build_messages clk traj) user_id)
         else if frame = ''memos-api'' then client (AddConv traj user_id [])
         else if frame = ''memos-api-online'' then client (AddTrajectory traj user_id)
         else if frame = ''memu'' then client (AddAtTime traj user_id (now_iso clk 0))
         else if frame = ''supermemory'' then
           client (AddMessages (build_messages clk traj) user_id)
         else if frame = ''mem0'' then client (AddAtTimestamp traj user_id (now_timestamp clk))
         else Inl (ValueError (''Invalid frame: '' @ frame)))"

record ingest_run =
  completed_count :: nat
  total_to_process :: nat
  ledger :: "string pyfile option"
  ingest_pbar :: nat
  console :: "log_entry list"

type_synonym ingest_future = "conversation \<times> (error + unit)"

text \<open>
  The futures the dict comprehension submits: one per conversation of \<open>data\<close> whose
  \<^verbatim>\<open>sample_id\<close> is not in \<open>success_records\<close>.
\<close>

definition future_to_conversation ::
  "conversation list \<Rightarrow> add_client \<Rightarrow> string \<Rightarrow> env \<Rightarrow> clock \<Rightarrow> string list
     \<Rightarrow> ingest_future list" where
  "future_to_conversation data client frame env clk success_records =
     map (\<lambda>conversation.
            (conversation, process_single_conversation conversation client frame env clk))
       (filter (\<lambda>conversation. sample_id conversation \<notin> set success_records) data)"

text \<open>
  The body of the \<^verbatim>\<open>as_completed\<close> loop. The record file \<open>f\<close> is the \<open>ledger\<close> of the
  state, \<open>None\<close> when the caller gave none. The counter is incremented before the line
  is written and flushed.
\<close>

definition ingest_step :: "string device \<Rightarrow> ingest_run \<Rightarrow> ingest_future \<Rightarrow> ingest_run" where
  "ingest_step dev st fut =
     (case fut of (conversation, outcome) \<Rightarrow>
        (let st' =
           (case outcome of
              Inl e \<Rightarrow> st\<lparr>console := console st @ [ConversationError (sample_id conversation) e]\<rparr>
            | Inr u \<Rightarrow>
               (let st1 = st\<lparr>completed_count := completed_count st + 1\<rparr>
                in case ledger st1 of
                     None \<Rightarrow> st1
                   | Some f \<Rightarrow>
                      (case file_write dev (sample_id conversation @ newline) f of
                         Inl e \<Rightarrow>
                           st1\<lparr>console :=
                                 console st1 @ [ConversationError (sample_id conversation) e]\<rparr>
                       | Inr f1 \<Rightarrow>
                          (case file_flush dev f1 of
                             (f2, None) \<Rightarrow> st1\<lparr>ledger := Some f2\<rparr>
                           | (f2, Some e) \<Rightarrow>
                               st1\<lparr>ledger := Some f2,
                                   console :=
                                     console st1 @ [ConversationError (sample_id conversation) e]\<rparr>))))
         in st'\<lparr>ingest_pbar := ingest_pbar st' + 1\<rparr>))"

definition ingest_conversation ::
  "conversation list \<Rightarrow> add_client \<Rightarrow> string \<Rightarrow> env \<Rightarrow> clock \<Rightarrow> string list
     \<Rightarrow> string device \<Rightarrow> string pyfile option \<Rightarrow> (ingest_future list \<Rightarrow> ingest_future list)
     \<Rightarrow> ingest_run" where
  "ingest_conversation data client frame env clk success_records dev f as_completed =
     (let futures = future_to_conversation data client frame env clk success_records
      in foldl (ingest_step dev)
           \<lparr>completed_count = 0, total_to_process = length futures, ledger = f,
            ingest_pbar = 0, console = []\<rparr>
           (as_completed futures))"



section \<open>Notions of the specification\<close>

text \<open>
  First occurrence wins: an element stays, every later element with its key goes, and
  so on through the rest.
\<close>

fun first_occurrence_wins :: "('a \<Rightarrow> 'k) \<Rightarrow> 'a list \<Rightarrow> 'a list" where
  "first_occurrence_wins key [] = []"
| "first_occurrence_wins key (x # xs) =
     x # first_occurrence_wins key (filter (\<lambda>y. key y \<noteq> key x) xs)"

text \<open>The deduplication key of a memory: \<^verbatim>\<open>item.get("id")\<close>, as the set stores it.\<close>

definition item_key :: "pydict \<Rightarrow> error + hkey" where
  "item_key d = hash_key (dict_get d ''id'')"

definition lacks_id :: "pydict \<Rightarrow> bool" where
  "lacks_id d = (map_of d ''id'' = None)"

text \<open>
  The memory lists the per-question searches returned, concatenated in question order;
  a search that raised contributes nothing.
\<close>

definition returned_memories :: "search_client \<Rightarrow> env \<Rightarrow> test_case \<Rightarrow> nat \<Rightarrow> pyval list" where
  "returned_memories client env tc top_k =
     concat (map (\<lambda>q. case search_memory client env q (test_id tc) top_k of
                         Inl e \<Rightarrow> []
                       | Inr v \<Rightarrow> (case py_iter v of Inl e \<Rightarrow> [] | Inr xs \<Rightarrow> xs))
               (all_questions tc))"

text \<open>The identifier a line of the Result Store carries, and those of the whole file.\<close>

definition line_id :: "store_line \<Rightarrow> error + hkey" where
  "line_id line = bind_err (json_loads line) (\<lambda>entry. bind_err (py_getitem entry ''id'') hash_key)"

definition store_content :: "store \<Rightarrow> store_line list" where
  "store_content sfile = (case sfile of None \<Rightarrow> [] | Some ls \<Rightarrow> ls)"

definition stored_ids :: "store \<Rightarrow> hkey set" where
  "stored_ids sfile =
     set (concat (map (\<lambda>line. case line_id line of Inl e \<Rightarrow> [] | Inr k \<Rightarrow> [k])
                    (store_content sfile)))"

text \<open>
  The line one finished future writes into the buffer of the Result Store file, and the
  line one finished future of \<open>ingest_conversation\<close> writes into the buffer of the
  record file; whether its conversation was processed without an exception.
\<close>

definition written_lines :: "store_line device \<Rightarrow> search_future \<Rightarrow> store_line list" where
  "written_lines dev fut =
     (case snd (snd fut) of
        Inl e \<Rightarrow> []
      | Inr result \<Rightarrow>
         (case json_line result of
            Inl e \<Rightarrow> []
          | Inr line \<Rightarrow> (case write_raises dev line of None \<Rightarrow> [line] | Some e \<Rightarrow> [])))"

definition ledger_written :: "string device \<Rightarrow> ingest_future \<Rightarrow> string list" where
  "ledger_written dev fut =
     (case snd fut of
        Inl e \<Rightarrow> []
      | Inr u \<Rightarrow>
         (case write_raises dev (sample_id (fst fut) @ newline) of
            None \<Rightarrow> [sample_id (fst fut) @ newline]
          | Some e \<Rightarrow> []))"

definition succeeded :: "ingest_future \<Rightarrow> bool" where
  "succeeded fut = (case snd fut of Inl e \<Rightarrow> False | Inr u \<Rightarrow> True)"

text \<open>The backend kinds both \<^verbatim>\<open>get_client\<close> functions accept.\<close>

definition valid_frames :: "string list" where
  "valid_frames =
     [''memobase'', ''memos-api'', ''memos-api-online'', ''memu'', ''supermemory'', ''mem0'']"

text \<open>
  The session key of the specification: task identifier, backend kind and run version,
  joined by underscores; the run version is the \<^verbatim>\<open>VERSION\<close> environment value, or
  \<^verbatim>\<open>default_version\<close>. A client that answers under one key only, and one that gives the
  same answer to every call.
\<close>

definition session_key :: "string \<Rightarrow> string \<Rightarrow> string \<Rightarrow> string" where
  "session_key task_id backend_kind run_version = task_id @ ''_'' @ backend_kind @ ''_'' @ run_version"

definition run_version :: "env \<Rightarrow> string" where
  "run_version env = (case env ''VERSION'' of None \<Rightarrow> ''default_version'' | Some v \<Rightarrow> v)"

definition only_session :: "string \<Rightarrow> search_client \<Rightarrow> search_client" where
  "only_session key client query user_id top_k =
     (if user_id = key then client query user_id top_k else Inl (BackendError ''other session''))"

definition answering :: "error + pyval \<Rightarrow> search_client" where
  "answering answer query user_id top_k = answer"

section \<open>Example runs\<close>

text \<open>
  Concrete inputs on which the properties below are run: backends, test cases,
  conversations, a clock, completion orders and files that accept or refuse a write.
\<close>

definition example_lib :: pylib where
  "example_lib = \<lparr>dict_builtin = (\<lambda>v. Inl TypeError), str_builtin = (\<lambda>v. ''?''), json_text = (\<lambda>v. ''?'')\<rparr>"

definition example_env :: env where
  "example_env = [''FRAME'' \<mapsto> ''mem0'']"

definition two_question_case :: test_case where
  "two_question_case =
     \<lparr>test_id = ''T'',
      question = Some [[\<lparr>role = ''user'', content = ''q1''\<rparr>], [\<lparr>role = ''user'', content = ''q2''\<rparr>]]\<rparr>"

definition overlap_client :: search_client where
  "overlap_client query user_id top_k =
     (if query = ''q1'' then Inr (PDict [(''results'', PList [PDict [(''id'', PInt 1)], PDict [(''id'', PInt 2)]])])
      else Inr (PDict [(''results'', PList [PDict [(''id'', PInt 2)], PDict [(''id'', PInt 3)]])]))"

definition idless_client :: search_client where
  "idless_client query user_id top_k =
     Inr (PDict [(''results'',
            PList [PDict [(''memory'', PStr ''a'')],
                   PObj [(''memory'', PStr ''b'')],
                   PDict [(''id'', PInt 5)],
                   PDict [(''memory'', PStr ''c'')]])])"

definition one_question_case :: test_case where
  "one_question_case = \<lparr>test_id = ''T'', question = Some [[\<lparr>role = ''user'', content = ''q1''\<rparr>]]\<rparr>"

definition case_A :: test_case where
  "case_A = \<lparr>test_id = ''A'', question = None\<rparr>"

definition case_B :: test_case where
  "case_B = \<lparr>test_id = ''B'', question = None\<rparr>"

definition case_C :: test_case where
  "case_C = \<lparr>test_id = ''C'', question = None\<rparr>"

definition stored_line :: "string \<Rightarrow> store_line" where
  "stored_line i =
     JsonLine (PDict [(''id'', PStr i), (''questions'', PList []), (''memories'', PList []),
                      (''mem_context'', PStr [])])"

definition conv_A :: conversation where
  "conv_A = \<lparr>sample_id = ''A'', trajectory = [\<lparr>role = ''user'', content = ''hello''\<rparr>]\<rparr>"

definition conv_B :: conversation where
  "conv_B = \<lparr>sample_id = ''B'', trajectory = [\<lparr>role = ''user'', content = ''hi''\<rparr>]\<rparr>"

definition conv_C :: conversation where
  "conv_C = \<lparr>sample_id = ''C'', trajectory = []\<rparr>"

definition example_clock :: clock where
  "example_clock = \<lparr>now_iso = (\<lambda>i. ''2025-01-01T00:00:00''), now_timestamp = 1735689600\<rparr>"

definition ok_client :: add_client where
  "ok_client call = Inr ()"

definition empty_client :: search_client where
  "empty_client query user_id top_k = Inr (PDict [(''results'', PList [])])"

definition in_order :: "'a list \<Rightarrow> 'a list" where
  "in_order futures = futures"

definition by_id_length :: "test_case \<Rightarrow> nat" where
  "by_id_length t = length (test_id t)"

definition failing_B_client :: add_client where
  "failing_B_client call =
     (if add_user_id call = ''B_mem0_default_version'' then Inl (BackendError ''unavailable'')
      else Inr ())"

definition reversed :: "'a list \<Rightarrow> 'a list" where
  "reversed futures = rev futures"

definition long_conversation :: conversation where
  "long_conversation =
     \<lparr>sample_id = ''L'',
      trajectory = [\<lparr>role = ''user'', content = replicate 8001 (CHR ''x'')\<rparr>,
                    \<lparr>role = ''assistant'', content = ''ok''\<rparr>]\<rparr>"

definition ok_device :: "'l device" where
  "ok_device = \<lparr>write_raises = (\<lambda>line. None), flush_raises = (\<lambda>n. None)\<rparr>"



definition keyed_client :: search_client where
  "keyed_client query user_id top_k =
     (if user_id = ''A_mem0_default_version''
      then Inr (PDict [(''results'', PList [PDict [(''id'', PStr query)]])])
      else Inl (BackendError ''unknown user''))"

section \<open>Properties\<close>

subsection \<open>First occurrence wins\<close>

lemma set_first_occurrence_wins:
  "key ` set (first_occurrence_wins key xs) = key ` set xs"
  by (induction key xs rule: first_occurrence_wins.induct) auto

lemma set_first_occurrence_wins_subset:
  "set (first_occurrence_wins key xs) \<subseteq> set xs"
  by (induction key xs rule: first_occurrence_wins.induct) auto

lemma distinct_first_occurrence_wins:
  "distinct (map key (first_occurrence_wins key xs))"
proof (induction key xs rule: first_occurrence_wins.induct)
  case (1 key)
  then show ?case by simp
next
  case (2 key x xs)
  have "set (first_occurrence_wins key (filter (\<lambda>y. key y \<noteq> key x) xs)) \<subseteq> {y. key y \<noteq> key x}"
    using set_first_occurrence_wins_subset[of key "filter (\<lambda>y. key y \<noteq> key x) xs"] by auto
  then show ?case using 2 by auto
qed

lemma first_occurrence_wins_find:
  "d \<in> set (first_occurrence_wins key xs) \<Longrightarrow> find (\<lambda>y. key y = key d) xs = Some d"
proof (induction key xs rule: first_occurrence_wins.induct)
  case (1 key)
  then show ?case by simp
next
  case (2 key x xs)
  show ?case
  proof (cases "d = x")
    case True
    then show ?thesis by simp
  next
    case False
    with 2 have mem: "d \<in> set (first_occurrence_wins key (filter (\<lambda>y. key y \<noteq> key x) xs))" by simp
    then have "d \<in> set (filter (\<lambda>y. key y \<noteq> key x) xs)"
      using set_first_occurrence_wins_subset by fastforce
    then have ne: "key d \<noteq> key x" by simp
    have "find (\<lambda>y. key y = key d) (filter (\<lambda>y. key y \<noteq> key x) xs) = Some d"
      using 2 mem by simp
    moreover have "find (\<lambda>y. key y = key d) (filter (\<lambda>y. key y \<noteq> key x) xs) = find (\<lambda>y. key y = key d) xs"
      using ne by (induction xs) auto
    ultimately show ?thesis using ne by auto
  qed
qed

lemma dedup_loop_ok:
  "map_err (to_dict py_dict) items = Inr ds \<Longrightarrow> \<forall>d \<in> set ds. \<exists>k. item_key d = Inr k \<Longrightarrow>
   dedup_loop py_dict items seen acc =
     Inr (acc @ first_occurrence_wins item_key (filter (\<lambda>d. item_key d \<notin> Inr ` seen) ds))"
proof (induction items arbitrary: ds seen acc)
  case Nil
  then show ?case by simp
next
  case (Cons item rest)
  from Cons.prems(1) obtain d ds' where d: "to_dict py_dict item = Inr d"
    and ds': "map_err (to_dict py_dict) rest = Inr ds'" and ds: "ds = d # ds'"
    by (auto split: sum.splits)
  from Cons.prems(2) ds obtain k where k: "item_key d = Inr k" by auto
  have all': "\<forall>d \<in> set ds'. \<exists>k. item_key d = Inr k" using Cons.prems(2) ds by simp
  have hk: "hash_key (dict_get d ''id'') = Inr k" using k by (simp add: item_key_def)
  show ?case
  proof (cases "k \<in> seen")
    case True
    then have in_seen: "item_key d \<in> Inr ` seen" using k by simp
    have "dedup_loop py_dict (item # rest) seen acc = dedup_loop py_dict rest seen acc"
      using True d hk by simp
    also have "\<dots> = Inr (acc @ first_occurrence_wins item_key
                 (filter (\<lambda>d. item_key d \<notin> Inr ` seen) ds'))"
      by (rule Cons.IH[OF ds' all'])
    also have "filter (\<lambda>d. item_key d \<notin> Inr ` seen) ds' = filter (\<lambda>d. item_key d \<notin> Inr ` seen) ds"
      using in_seen ds by simp
    finally show ?thesis .
  next
    case False
    then have not_seen: "item_key d \<notin> Inr ` seen" using k by auto
    have eq: "filter (\<lambda>y. item_key y \<noteq> item_key d) (filter (\<lambda>d. item_key d \<notin> Inr ` seen) ds')
        = filter (\<lambda>d. item_key d \<notin> Inr ` insert k seen) ds'"
      using k by (auto intro: filter_cong)
    have "dedup_loop py_dict (item # rest) seen acc
            = dedup_loop py_dict rest (insert k seen) (acc @ [d])"
      using False d hk by simp
    also have "\<dots> = Inr ((acc @ [d]) @ first_occurrence_wins item_key
                 (filter (\<lambda>d. item_key d \<notin> Inr ` insert k seen) ds'))"
      by (rule Cons.IH[OF ds' all'])
    also have "(acc @ [d]) @ first_occurrence_wins item_key
                 (filter (\<lambda>d. item_key d \<notin> Inr ` insert k seen) ds')
             = acc @ first_occurrence_wins item_key (filter (\<lambda>d. item_key d \<notin> Inr ` seen) ds)"
      using not_seen ds eq by simp
    finally show ?thesis .
  qed
qed

lemma dedup_loop_Inr:
  "dedup_loop py_dict items seen acc = Inr r \<Longrightarrow>
   \<exists>ds. map_err (to_dict py_dict) items = Inr ds \<and> (\<forall>d \<in> set ds. \<exists>k. item_key d = Inr k)"
proof (induction items arbitrary: seen acc)
  case Nil
  then show ?case by simp
next
  case (Cons item rest)
  then show ?case
    by (fastforce simp: item_key_def split: sum.splits if_splits)
qed

lemma search_loop_snd:
  "snd (search_loop client env tid top_k qs log mem_list) =
     mem_list @ concat (map (\<lambda>q. case search_memory client env q tid top_k of
                         Inl e \<Rightarrow> []
                       | Inr v \<Rightarrow> (case py_iter v of Inl e \<Rightarrow> [] | Inr xs \<Rightarrow> xs)) qs)"
  by (induction qs arbitrary: log mem_list) (auto split: sum.splits)


lemma first_occurrence_wins_one_key:
  "filter (\<lambda>d. key d = c) (first_occurrence_wins key xs) = take 1 (filter (\<lambda>d. key d = c) xs)"
proof (induction key xs rule: first_occurrence_wins.induct)
  case (1 key)
  then show ?case by simp
next
  case (2 key x xs)
  show ?case
  proof (cases "key x = c")
    case True
    have "set (first_occurrence_wins key (filter (\<lambda>y. key y \<noteq> key x) xs)) \<subseteq> {y. key y \<noteq> c}"
      using set_first_occurrence_wins_subset[of key "filter (\<lambda>y. key y \<noteq> key x) xs"] True by auto
    then have "filter (\<lambda>d. key d = c) (first_occurrence_wins key (filter (\<lambda>y. key y \<noteq> key x) xs)) = []"
      by (auto simp: filter_empty_conv)
    then show ?thesis using True by simp
  next
    case False
    have "filter (\<lambda>d. key d = c) (filter (\<lambda>y. key y \<noteq> key x) xs) = filter (\<lambda>d. key d = c) xs"
      using False by (auto intro: filter_cong)
    then show ?thesis using False 2 by simp
  qed
qed

lemma lacks_id_key: "lacks_id d \<Longrightarrow> item_key d = Inr KNone"
  by (simp add: lacks_id_def item_key_def dict_get_def)

lemma take1_filter_sub:
  assumes "\<And>x. P x \<Longrightarrow> Q x"
  shows "filter P (take 1 (filter Q xs)) = [] \<or> filter P (take 1 (filter Q xs)) = take 1 (filter P xs)"
proof (induction xs)
  case Nil
  then show ?case by simp
next
  case (Cons x xs)
  then show ?case using assms by (cases "Q x"; cases "P x") auto
qed

lemma subseq_first_occurrence_wins: "subseq (first_occurrence_wins key xs) xs"
proof (induction key xs rule: first_occurrence_wins.induct)
  case (1 key)
  then show ?case by simp
next
  case (2 key x xs)
  have "subseq (filter (\<lambda>y. key y \<noteq> key x) xs) xs" by simp
  with 2 have "subseq (first_occurrence_wins key (filter (\<lambda>y. key y \<noteq> key x) xs)) xs"
    using subseq_order.order_trans by blast
  then show ?case by simp
qed

subsection \<open>The Result Store\<close>

lemma load_existing_ids_Inr:
  "load_existing_ids lines S = Inr ids \<Longrightarrow>
     (\<forall>l \<in> set lines. \<exists>k. line_id l = Inr k) \<and> ids = S \<union> {k. Inr k \<in> line_id ` set lines}"
proof (induction lines arbitrary: S)
  case Nil
  then show ?case by auto
next
  case (Cons line rest)
  from Cons.prems obtain entry v k where
    e: "json_loads line = Inr entry" and v: "py_getitem entry ''id'' = Inr v"
    and k: "hash_key v = Inr k" and r: "load_existing_ids rest (insert k S) = Inr ids"
    by (auto split: sum.splits)
  have lk: "line_id line = Inr k" using e v k by (simp add: line_id_def bind_err_def)
  from Cons.IH[OF r] have ih1: "\<forall>l \<in> set rest. \<exists>k. line_id l = Inr k"
    and ih2: "ids = insert k S \<union> {k. Inr k \<in> line_id ` set rest}" by auto
  show ?case using lk ih1 ih2 by (auto simp: image_iff)
qed

lemma load_existing_ids_total:
  "\<forall>l \<in> set lines. \<exists>k. line_id l = Inr k \<Longrightarrow>
     load_existing_ids lines S = Inr (S \<union> {k. Inr k \<in> line_id ` set lines})"
proof (induction lines arbitrary: S)
  case Nil
  then show ?case by auto
next
  case (Cons line rest)
  from Cons.prems obtain k where lk: "line_id line = Inr k" by auto
  then obtain entry v where
    e: "json_loads line = Inr entry" and v: "py_getitem entry ''id'' = Inr v"
    and k: "hash_key v = Inr k"
    by (auto simp: line_id_def bind_err_def split: sum.splits)
  have "load_existing_ids (line # rest) S = load_existing_ids rest (insert k S)"
    using e v k by simp
  also have "\<dots> = Inr (insert k S \<union> {k. Inr k \<in> line_id ` set rest})"
    using Cons by simp
  also have "insert k S \<union> {k. Inr k \<in> line_id ` set rest} = S \<union> {k. Inr k \<in> line_id ` set (line # rest)}"
    using lk by (auto simp: image_iff)
  finally show ?case .
qed

lemma stored_ids_alt: "stored_ids sfile = {k. Inr k \<in> line_id ` set (store_content sfile)}"
proof -
  have "set (concat (map (\<lambda>line. case line_id line of Inl e \<Rightarrow> [] | Inr k \<Rightarrow> [k]) ls))
          = {k. Inr k \<in> line_id ` set ls}" for ls
    by (induction ls) (auto split: sum.splits)
  then show ?thesis by (simp add: stored_ids_def)
qed

lemma collect_no_overwrite:
  assumes "\<not> allow_overwrite a" and "\<forall>l \<in> set (store_content sfile). \<exists>k. line_id l = Inr k"
  shows "collect_test_cases skey a sfile entries =
           Inr (sfile, sort_key skey (filter (\<lambda>t. KStr (test_id t) \<notin> stored_ids sfile) entries))"
proof (cases sfile)
  case None
  then show ?thesis using assms by (simp add: collect_test_cases_def stored_ids_alt store_content_def)
next
  case (Some ls)
  then have "load_existing_ids ls {} = Inr (stored_ids sfile)"
    using load_existing_ids_total[of ls "{}"] assms(2) by (simp add: stored_ids_alt store_content_def)
  then show ?thesis using Some assms(1) by (simp add: collect_test_cases_def)
qed

lemma collect_no_overwrite_Inr:
  assumes "\<not> allow_overwrite a" and "collect_test_cases skey a sfile entries = Inr (sfile', tcs)"
  shows "sfile' = sfile \<and> tcs = sort_key skey (filter (\<lambda>t. KStr (test_id t) \<notin> stored_ids sfile) entries)"
proof (cases sfile)
  case None
  then show ?thesis using assms by (auto simp add: collect_test_cases_def stored_ids_alt store_content_def)
next
  case (Some ls)
  with assms obtain ids where ids: "load_existing_ids ls {} = Inr ids"
    by (auto simp: collect_test_cases_def split: sum.splits)
  then have "ids = stored_ids sfile"
    using load_existing_ids_Inr[OF ids] Some by (simp add: stored_ids_alt store_content_def)
  then show ?thesis using Some assms ids by (auto simp add: collect_test_cases_def)
qed

lemma search_futures_fst: "map fst (search_futures lib sclient senv tcs) = tcs"
  by (simp add: search_futures_def comp_def)

lemma future_to_conversation_fst:
  "map fst (future_to_conversation data client frame env clk recs) =
     filter (\<lambda>c. sample_id c \<notin> set recs) data"
  by (simp add: future_to_conversation_def comp_def)


subsection \<open>Resume\<close>

text \<open>
  C1. Idempotent resume. The conversations \<open>ingest_conversation\<close> submits are the
  conversations of \<open>data\<close> whose \<^verbatim>\<open>sample_id\<close> is not in \<open>success_records\<close>, a set
  difference. Without \<^verbatim>\<open>--allow-overwrite\<close>, whenever \<open>collect_test_cases\<close> returns, it
  leaves the Result Store as it is and returns the entries whose identifier is not among
  the identifiers stored there; these are the test cases submitted to
  \<open>search_single_test_case\<close>. It does return when every stored line carries an
  identifier.
\<close>

theorem idempotent_resume:
  "map fst (future_to_conversation data client frame env clk success_records) =
       filter (\<lambda>c. sample_id c \<notin> set success_records) data
   \<and> set (map fst (future_to_conversation data client frame env clk success_records)) =
       set data - {c. sample_id c \<in> set success_records}
   \<and> (\<not> allow_overwrite a \<longrightarrow>
        (\<forall>sfile' tcs. collect_test_cases skey a sfile entries = Inr (sfile', tcs) \<longrightarrow>
           sfile' = sfile
           \<and> set tcs = set entries - {t. KStr (test_id t) \<in> stored_ids sfile}
           \<and> mset tcs = mset (filter (\<lambda>t. KStr (test_id t) \<notin> stored_ids sfile) entries)
           \<and> map fst (search_futures lib sclient senv tcs) = tcs)
        \<and> ((\<forall>l \<in> set (store_content sfile). \<exists>k. line_id l = Inr k) \<longrightarrow>
             (\<exists>tcs. collect_test_cases skey a sfile entries = Inr (sfile, tcs))))"
proof -
  have 1: "map fst (future_to_conversation data client frame env clk success_records) =
       filter (\<lambda>c. sample_id c \<notin> set success_records) data"
    by (rule future_to_conversation_fst)
  have 2: "set (map fst (future_to_conversation data client frame env clk success_records)) =
       set data - {c. sample_id c \<in> set success_records}"
    unfolding 1 by auto
  have 3: "sfile' = sfile
           \<and> set tcs = set entries - {t. KStr (test_id t) \<in> stored_ids sfile}
           \<and> mset tcs = mset (filter (\<lambda>t. KStr (test_id t) \<notin> stored_ids sfile) entries)
           \<and> map fst (search_futures lib sclient senv tcs) = tcs"
    if "\<not> allow_overwrite a" "collect_test_cases skey a sfile entries = Inr (sfile', tcs)"
    for sfile' tcs
  proof -
    from collect_no_overwrite_Inr[OF that] have f: "sfile' = sfile"
      and t: "tcs = sort_key skey (filter (\<lambda>t. KStr (test_id t) \<notin> stored_ids sfile) entries)"
      by auto
    have "set tcs = set entries - {t. KStr (test_id t) \<in> stored_ids sfile}"
      unfolding t by auto
    moreover have "mset tcs = mset (filter (\<lambda>t. KStr (test_id t) \<notin> stored_ids sfile) entries)"
      unfolding t by simp
    ultimately show ?thesis using f search_futures_fst by blast
  qed
  have 4: "\<exists>tcs. collect_test_cases skey a sfile entries = Inr (sfile, tcs)"
    if "\<not> allow_overwrite a" "\<forall>l \<in> set (store_content sfile). \<exists>k. line_id l = Inr k"
    using collect_no_overwrite[OF that] by blast
  show ?thesis using 1 2 3 4 by blast
qed

lemma example_ids [simp]:
  "test_id case_A = ''A''" "test_id case_B = ''B''" "test_id case_C = ''C''"
  "sample_id conv_A = ''A''" "sample_id conv_B = ''B''" "sample_id conv_C = ''C''"
  by (simp_all add: case_A_def case_B_def case_C_def conv_A_def conv_B_def conv_C_def)

lemma example_collect:
  "collect_test_cases (\<lambda>t. length (test_id t))
      \<lparr>run_ids = False, allow_overwrite = False, num_threads = 10\<rparr>
      (Some [stored_line ''A'', stored_line ''B'']) [case_A, case_B, case_C]
    = Inr (Some [stored_line ''A'', stored_line ''B''], [case_C])"
  by (simp add: collect_test_cases_def stored_line_def)

theorem idempotent_resume_witness:
  "map fst (future_to_conversation [conv_A, conv_B, conv_C] ok_client ''mem0'' Map.empty
             example_clock [''A'', ''B'']) = [conv_C]
   \<and> collect_test_cases (\<lambda>t. length (test_id t))
                \<lparr>run_ids = False, allow_overwrite = False, num_threads = 10\<rparr>
                (Some [stored_line ''A'', stored_line ''B'']) [case_A, case_B, case_C]
              = Inr (Some [stored_line ''A'', stored_line ''B''], [case_C])
   \<and> set [case_C] = set [case_A, case_B, case_C]
        - {t. KStr (test_id t) \<in> stored_ids (Some [stored_line ''A'', stored_line ''B''])}
   \<and> map fst (search_futures example_lib overlap_client example_env [case_C]) = [case_C]"
proof -
  let ?a = "\<lparr>run_ids = False, allow_overwrite = False, num_threads = 10\<rparr>"
  let ?st = "Some [stored_line ''A'', stored_line ''B'']"
  let ?skey = "\<lambda>t. length (test_id t)"
  note inst = idempotent_resume [of "[conv_A, conv_B, conv_C]" ok_client "''mem0''" Map.empty
      example_clock "[''A'', ''B'']" ?a ?skey ?st "[case_A, case_B, case_C]" example_lib
      overlap_client example_env]
  have no: "\<not> allow_overwrite ?a" by simp
  note c = example_collect
  note p1 = inst [THEN conjunct1]
  note p3 = inst [THEN conjunct2, THEN conjunct2, THEN mp, OF no, THEN conjunct1,
                  THEN spec, THEN spec, THEN mp, OF c]
  have q1: "map fst (future_to_conversation [conv_A, conv_B, conv_C] ok_client ''mem0'' Map.empty
             example_clock [''A'', ''B'']) = [conv_C]"
    unfolding p1 by simp
  show ?thesis
    using q1 c p3 by simp
qed

subsection \<open>Deduplication\<close>

lemma search_single_test_case_Inr:
  assumes "search_single_test_case lib client env tc top_k = (log, Inr r)"
  shows "dedup_loop (dict_builtin lib) (returned_memories client env tc top_k) {} []
           = Inr (memories r)"
proof -
  obtain log0 mem_list where sl:
    "search_loop client env (test_id tc) top_k (all_questions tc) [] [] = (log0, mem_list)"
    by (cases "search_loop client env (test_id tc) top_k (all_questions tc) [] []") auto
  have "mem_list = returned_memories client env tc top_k"
    using search_loop_snd[of client env "test_id tc" top_k "all_questions tc" "[]" "[]"] sl
    by (simp add: returned_memories_def)
  then show ?thesis using sl assms
    by (auto simp: search_single_test_case_def Let_def split: sum.splits prod.splits if_splits)
qed

lemma search_single_test_case_memories:
  assumes "dedup_loop (dict_builtin lib) (returned_memories client env tc top_k) {} [] = Inr ms"
  shows "\<exists>log ctx. search_single_test_case lib client env tc top_k =
           (log, Inr \<lparr>result_id = test_id tc, questions = all_questions tc,
                      memories = ms, mem_context = ctx\<rparr>)"
proof -
  obtain log mem_list where sl:
    "search_loop client env (test_id tc) top_k (all_questions tc) [] [] = (log, mem_list)"
    by (cases "search_loop client env (test_id tc) top_k (all_questions tc) [] []") auto
  have "mem_list = returned_memories client env tc top_k"
    using search_loop_snd[of client env "test_id tc" top_k "all_questions tc" "[]" "[]"] sl
    by (simp add: returned_memories_def)
  then show ?thesis using sl assms
    by (auto simp: search_single_test_case_def Let_def split: sum.splits prod.splits)
qed

lemma example_returned:
  "returned_memories overlap_client example_env two_question_case 10 =
     [PDict [(''id'', PInt 1)], PDict [(''id'', PInt 2)], PDict [(''id'', PInt 2)],
      PDict [(''id'', PInt 3)]]"
  by (simp add: returned_memories_def all_questions_def two_question_case_def search_memory_def
        overlap_client_def example_env_def Let_def)

text \<open>
  C2. Deduplication. When every returned memory converts to a dict and has a hashable
  \<^verbatim>\<open>id\<close>, \<open>search_single_test_case\<close> returns a record whose memories are the
  concatenation of the returned lists, in question order, deduplicated by \<^verbatim>\<open>id\<close> with
  first occurrence wins: the keys of the result are distinct, every key of the
  concatenation is there, the result is a subsequence of the concatenation, and each
  of its elements is the first one with its key.
\<close>

theorem search_single_test_case_dedup:
  assumes "map_err (to_dict (dict_builtin lib)) (returned_memories client env tc top_k) = Inr ds"
    and "\<forall>d \<in> set ds. \<exists>k. item_key d = Inr k"
  shows "(\<exists>log ctx. search_single_test_case lib client env tc top_k =
           (log, Inr \<lparr>result_id = test_id tc, questions = all_questions tc,
                      memories = first_occurrence_wins item_key ds, mem_context = ctx\<rparr>))
       \<and> distinct (map item_key (first_occurrence_wins item_key ds))
       \<and> item_key ` set (first_occurrence_wins item_key ds) = item_key ` set ds
       \<and> subseq (first_occurrence_wins item_key ds) ds
       \<and> (\<forall>d \<in> set (first_occurrence_wins item_key ds).
             find (\<lambda>y. item_key y = item_key d) ds = Some d)"
proof -
  have "dedup_loop (dict_builtin lib) (returned_memories client env tc top_k) {} []
          = Inr (first_occurrence_wins item_key ds)"
    using dedup_loop_ok[OF assms, of "{}" "[]"] by simp
  from search_single_test_case_memories[OF this]
  have "\<exists>log ctx. search_single_test_case lib client env tc top_k =
           (log, Inr \<lparr>result_id = test_id tc, questions = all_questions tc,
                      memories = first_occurrence_wins item_key ds, mem_context = ctx\<rparr>)" .
  then show ?thesis
    using distinct_first_occurrence_wins[of item_key ds] set_first_occurrence_wins[of item_key ds]
      subseq_first_occurrence_wins[of item_key ds] first_occurrence_wins_find[of _ item_key ds]
    by blast
qed

theorem search_single_test_case_dedup_witness:
  "\<exists>log ctx. search_single_test_case example_lib overlap_client example_env two_question_case 10 =
     (log, Inr \<lparr>result_id = ''T'', questions = [''q1'', ''q2''],
                memories = [[(''id'', PInt 1)], [(''id'', PInt 2)], [(''id'', PInt 3)]],
                mem_context = ctx\<rparr>)"
proof -
  have h1: "map_err (to_dict (dict_builtin example_lib))
              (returned_memories overlap_client example_env two_question_case 10) =
            Inr [[(''id'', PInt 1)], [(''id'', PInt 2)], [(''id'', PInt 2)], [(''id'', PInt 3)]]"
    by (simp add: example_returned)
  have h2: "\<forall>d \<in> set [[(''id'', PInt 1)], [(''id'', PInt 2)], [(''id'', PInt 2)],
                        [(''id'', PInt 3)]]. \<exists>k. item_key d = Inr k"
    by (simp add: item_key_def dict_get_def)
  have "\<exists>log ctx. search_single_test_case example_lib overlap_client example_env
                    two_question_case 10 =
          (log, Inr \<lparr>result_id = test_id two_question_case,
                     questions = all_questions two_question_case,
                     memories = first_occurrence_wins item_key
                       [[(''id'', PInt 1)], [(''id'', PInt 2)], [(''id'', PInt 2)],
                        [(''id'', PInt 3)]],
                     mem_context = ctx\<rparr>)"
    using search_single_test_case_dedup [OF h1 h2] by blast
  then show ?thesis
    by (simp add: item_key_def dict_get_def all_questions_def two_question_case_def)
qed

lemma example_idless_returned:
  "returned_memories idless_client example_env one_question_case 10 =
     [PDict [(''memory'', PStr ''a'')], PObj [(''memory'', PStr ''b'')],
      PDict [(''id'', PInt 5)], PDict [(''memory'', PStr ''c'')]]"
  by (simp add: returned_memories_def all_questions_def one_question_case_def search_memory_def
        idless_client_def example_env_def Let_def)

text \<open>
  C10. Memories without an \<^verbatim>\<open>id\<close>. Whenever \<open>search_single_test_case\<close> returns a
  record, every returned memory was converted to a dict (a dict as it is, a class
  instance by its \<^verbatim>\<open>__dict__\<close>, anything else by \<^verbatim>\<open>dict(item)\<close>); a dict without
  \<^verbatim>\<open>id\<close> has the key \<^verbatim>\<open>None\<close>; of the memories with the key \<^verbatim>\<open>None\<close> exactly the first
  one, in concatenation order, is in the record; so at most one memory without \<^verbatim>\<open>id\<close>
  is there, and it can only be the first such memory.
\<close>

theorem id_less_memories_collapse:
  assumes "search_single_test_case lib client env tc top_k = (log, Inr r)"
  shows "\<exists>ds. map_err (to_dict (dict_builtin lib)) (returned_memories client env tc top_k) = Inr ds
     \<and> (\<forall>a. to_dict (dict_builtin lib) (PObj a) = Inr a)
     \<and> (\<forall>i. to_dict (dict_builtin lib) (PInt i) = dict_builtin lib (PInt i))
     \<and> (\<forall>d. lacks_id d \<longrightarrow> item_key d = Inr KNone)
     \<and> filter (\<lambda>d. item_key d = Inr KNone) (memories r)
           = take 1 (filter (\<lambda>d. item_key d = Inr KNone) ds)
     \<and> length (filter lacks_id (memories r)) \<le> 1
     \<and> (filter lacks_id (memories r) = []
          \<or> filter lacks_id (memories r) = take 1 (filter lacks_id ds))"
proof -
  let ?items = "returned_memories client env tc top_k"
  have dl: "dedup_loop (dict_builtin lib) ?items {} [] = Inr (memories r)"
    by (rule search_single_test_case_Inr[OF assms])
  from dedup_loop_Inr[OF dl] obtain ds where
    ds: "map_err (to_dict (dict_builtin lib)) ?items = Inr ds"
    and hk: "\<forall>d \<in> set ds. \<exists>k. item_key d = Inr k" by blast
  have m: "memories r = first_occurrence_wins item_key ds"
    using dedup_loop_ok[OF ds hk, of "{}" "[]"] dl by simp
  have one: "filter (\<lambda>d. item_key d = Inr KNone) (memories r)
           = take 1 (filter (\<lambda>d. item_key d = Inr KNone) ds)"
    unfolding m by (rule first_occurrence_wins_one_key)
  have sub: "filter lacks_id (memories r)
           = filter lacks_id (take 1 (filter (\<lambda>d. item_key d = Inr KNone) ds))"
  proof -
    have "filter lacks_id (memories r)
            = filter lacks_id (filter (\<lambda>d. item_key d = Inr KNone) (memories r))"
      using lacks_id_key by (auto intro: filter_cong)
    then show ?thesis using one by simp
  qed
  have alt: "filter lacks_id (memories r) = []
          \<or> filter lacks_id (memories r) = take 1 (filter lacks_id ds)"
    unfolding sub using take1_filter_sub[of lacks_id "\<lambda>d. item_key d = Inr KNone" ds] lacks_id_key
    by blast
  have len: "length (filter lacks_id (memories r)) \<le> 1"
    using alt by auto
  show ?thesis using ds one len alt lacks_id_key by auto
qed

theorem id_less_memories_collapse_witness:
  "\<exists>log ctx. search_single_test_case example_lib idless_client example_env one_question_case 10 =
     (log, Inr \<lparr>result_id = ''T'', questions = [''q1''],
                memories = [[(''memory'', PStr ''a'')], [(''id'', PInt 5)]],
                mem_context = ctx\<rparr>)
   \<and> filter lacks_id [[(''memory'', PStr ''a'')], [(''id'', PInt 5)]]
       = take 1 (filter lacks_id [[(''memory'', PStr ''a'')], [(''memory'', PStr ''b'')],
                                  [(''id'', PInt 5)], [(''memory'', PStr ''c'')]])"
proof -
  let ?ds = "[[(''memory'', PStr ''a'')], [(''memory'', PStr ''b'')], [(''id'', PInt 5)],
              [(''memory'', PStr ''c'')]]"
  have dl: "dedup_loop (dict_builtin example_lib)
              (returned_memories idless_client example_env one_question_case 10) {} []
            = Inr [[(''memory'', PStr ''a'')], [(''id'', PInt 5)]]"
    by (simp add: example_idless_returned dict_get_def)
  from search_single_test_case_memories[OF dl] obtain log ctx where
    run: "search_single_test_case example_lib idless_client example_env one_question_case 10 =
            (log, Inr \<lparr>result_id = test_id one_question_case,
                       questions = all_questions one_question_case,
                       memories = [[(''memory'', PStr ''a'')], [(''id'', PInt 5)]],
                       mem_context = ctx\<rparr>)"
    by blast
  have conv: "map_err (to_dict (dict_builtin example_lib))
                (returned_memories idless_client example_env one_question_case 10) = Inr ?ds"
    by (simp add: example_idless_returned)
  from id_less_memories_collapse[OF run] conv
  have "filter lacks_id [[(''memory'', PStr ''a'')], [(''id'', PInt 5)]] = []
        \<or> filter lacks_id [[(''memory'', PStr ''a'')], [(''id'', PInt 5)]]
            = take 1 (filter lacks_id ?ds)"
    by auto
  then have "filter lacks_id [[(''memory'', PStr ''a'')], [(''id'', PInt 5)]]
            = take 1 (filter lacks_id ?ds)"
    by (simp add: lacks_id_def)
  then show ?thesis using run
    by (simp add: all_questions_def one_question_case_def)
qed

subsection \<open>Writing and flushing\<close>

lemma file_write_Inr:
  assumes "file_write dev line f = Inr f1"
  shows "write_raises dev line = None \<and> on_disk f1 = on_disk f \<and> pending f1 = pending f @ [line]
         \<and> flush_count f1 = flush_count f"
  using assms by (auto simp: file_write_def split: option.splits)

lemma file_write_Inl:
  assumes "file_write dev line f = Inl e"
  shows "write_raises dev line = Some e"
  using assms by (auto simp: file_write_def split: option.splits)

lemma file_flush_written:
  assumes "file_flush dev f = (f', err)"
  shows "on_disk f' @ pending f' = on_disk f @ pending f"
  using assms by (auto simp: file_flush_def split: if_splits option.splits)

lemma file_flush_grows:
  assumes "file_flush dev f = (f', err)"
  shows "\<exists>new. on_disk f' = on_disk f @ new"
  using assms by (auto simp: file_flush_def split: if_splits option.splits)

lemma file_flush_ok:
  assumes "flush_raises dev (flush_count f) = None"
  shows "file_flush dev f
           = (if pending f = [] then f
              else f\<lparr>on_disk := on_disk f @ pending f, pending := [],
                     flush_count := Suc (flush_count f)\<rparr>, None)"
  using assms by (simp add: file_flush_def)

lemma file_flush_fails:
  assumes "flush_raises dev (flush_count f) = Some e" and "pending f \<noteq> []"
  shows "file_flush dev f = (f\<lparr>flush_count := Suc (flush_count f)\<rparr>, Some e)"
  using assms by (simp add: file_flush_def)

lemma file_close_cases:
  assumes "file_close dev f = (d, err)"
  shows "(err = None \<and> d = on_disk f @ pending f)
       \<or> (\<exists>e. err = Some e \<and> d = on_disk f \<and> flush_raises dev (flush_count f) = Some e)"
proof (cases "pending f = []")
  case True
  then show ?thesis using assms by (simp add: file_close_def file_flush_def)
next
  case False
  show ?thesis
  proof (cases "flush_raises dev (flush_count f)")
    case None
    then show ?thesis using assms False by (auto simp: file_close_def file_flush_def)
  next
    case (Some e)
    with False have "file_close dev f = (on_disk f, Some e)"
      by (simp add: file_close_def file_flush_def)
    with assms have "err = Some e" "d = on_disk f" by simp_all
    then show ?thesis using Some by simp
  qed
qed

lemma file_close_ok:
  assumes "\<forall>n. flush_raises dev n = None"
  shows "file_close dev f = (on_disk f @ pending f, None)"
  using assms by (simp add: file_close_def file_flush_def)

subsection \<open>The search loop\<close>


lemma search_step_written:
  "on_disk (result_file (search_step dev st fut)) @ pending (result_file (search_step dev st fut))
     = on_disk (result_file st) @ pending (result_file st) @ written_lines dev fut"
proof -
  obtain tc wlog outcome where fut: "fut = (tc, wlog, outcome)" by (cases fut) auto
  show ?thesis
  proof (cases outcome)
    case (Inl e)
    then show ?thesis by (simp add: fut search_step_def written_lines_def)
  next
    case (Inr result)
    show ?thesis
    proof (cases "json_line result")
      case (Inl e)
      then show ?thesis using Inr by (simp add: fut search_step_def written_lines_def)
    next
      case line: (Inr line)
      show ?thesis
      proof (cases "file_write dev line (result_file st)")
        case (Inl e)
        then show ?thesis using Inr line file_write_Inl[OF Inl]
          by (simp add: fut search_step_def written_lines_def)
      next
        case f1: (Inr f1)
        obtain f2 err where fl: "file_flush dev f1 = (f2, err)" by (cases "file_flush dev f1") auto
        have w: "on_disk f2 @ pending f2 = on_disk (result_file st) @ pending (result_file st) @ [line]"
          using file_flush_written[OF fl] file_write_Inr[OF f1] by simp
        have wl: "written_lines dev fut = [line]"
          using Inr line file_write_Inr[OF f1] by (simp add: fut written_lines_def)
        have "result_file (search_step dev st fut) = f2"
          using Inr line f1 fl by (cases err) (simp_all add: fut search_step_def)
        then show ?thesis using w wl by simp
      qed
    qed
  qed
qed

lemma search_step_grows:
  "\<exists>new. on_disk (result_file (search_step dev st fut)) = on_disk (result_file st) @ new"
proof -
  obtain tc wlog outcome where fut: "fut = (tc, wlog, outcome)" by (cases fut) auto
  show ?thesis
  proof (cases outcome)
    case (Inl e)
    then show ?thesis by (simp add: fut search_step_def)
  next
    case (Inr result)
    show ?thesis
    proof (cases "json_line result")
      case (Inl e)
      then show ?thesis using Inr by (simp add: fut search_step_def)
    next
      case line: (Inr line)
      show ?thesis
      proof (cases "file_write dev line (result_file st)")
        case (Inl e)
        then show ?thesis using Inr line by (simp add: fut search_step_def)
      next
        case f1: (Inr f1)
        obtain f2 err where fl: "file_flush dev f1 = (f2, err)" by (cases "file_flush dev f1") auto
        have "result_file (search_step dev st fut) = f2"
          using Inr line f1 fl by (cases err) (simp_all add: fut search_step_def)
        then show ?thesis using file_flush_grows[OF fl] file_write_Inr[OF f1] by simp
      qed
    qed
  qed
qed


lemma foldl_search_step_written:
  "on_disk (result_file (foldl (search_step dev) st futs))
     @ pending (result_file (foldl (search_step dev) st futs))
   = on_disk (result_file st) @ pending (result_file st) @ concat (map (written_lines dev) futs)"
proof (induction futs arbitrary: st)
  case Nil
  then show ?case by simp
next
  case (Cons fut futs)
  show ?case
    using Cons[of "search_step dev st fut"] search_step_written[of dev st fut] by simp
qed

lemma foldl_search_step_grows:
  "\<exists>new. on_disk (result_file (foldl (search_step dev) st futs)) = on_disk (result_file st) @ new"
proof (induction futs arbitrary: st)
  case Nil
  then show ?case by simp
next
  case (Cons fut futs)
  from Cons[of "search_step dev st fut"] obtain n1 where
    1: "on_disk (result_file (foldl (search_step dev) (search_step dev st fut) futs))
          = on_disk (result_file (search_step dev st fut)) @ n1" by blast
  from search_step_grows[of dev st fut] obtain n2 where
    2: "on_disk (result_file (search_step dev st fut)) = on_disk (result_file st) @ n2" by blast
  show ?case using 1 2 by simp
qed

text \<open>
  What \<open>generate_search_results\<close> leaves: the former lines and, after them, lines this
  run wrote, in the order they were written; all of them when the function returns.
\<close>

lemma generate_search_results_file:
  assumes "get_client clients env = Inr client"
    and "W = concat (map (written_lines dev) (asc (search_futures lib client env tcs)))"
    and "generate_search_results lib clients env asc dev sfile tcs = (res, sfile')"
  shows "\<exists>d new. sfile' = Some d \<and> d = store_content sfile @ new \<and> prefix new W
           \<and> ((\<exists>run. res = Inr run) \<longrightarrow> new = W)
           \<and> ((\<forall>n. flush_raises dev n = None) \<longrightarrow>
                (\<exists>run. res = Inr run \<and> search_log run
                     = search_log (foldl (search_step dev)
                         \<lparr>result_file = open_append sfile, search_pbar = 0, search_log = []\<rparr>
                         (asc (search_futures lib client env tcs)))))"
proof -
  let ?st0 = "\<lparr>result_file = open_append sfile, search_pbar = 0, search_log = []\<rparr>"
  let ?run = "foldl (search_step dev) ?st0 (asc (search_futures lib client env tcs))"
  let ?f = "result_file ?run"
  have init: "on_disk (result_file ?st0) = store_content sfile" "pending (result_file ?st0) = []"
    by (simp_all add: open_append_def store_content_def)
  have inv: "on_disk ?f @ pending ?f = store_content sfile @ W"
    using foldl_search_step_written[of dev ?st0 "asc (search_futures lib client env tcs)"]
      init assms(2) by simp
  obtain new where new: "on_disk ?f = store_content sfile @ new"
    using foldl_search_step_grows[of dev ?st0 "asc (search_futures lib client env tcs)"] init
    by auto
  have W: "W = new @ pending ?f" using inv new by simp
  obtain d err where cl: "file_close dev ?f = (d, err)" by (cases "file_close dev ?f") auto
  have g: "res = (case err of None \<Rightarrow> Inr ?run | Some e \<Rightarrow> Inl e)" "sfile' = Some d"
    using assms(1,3) cl by (auto simp: generate_search_results_def Let_def split: option.splits)
  from file_close_cases[OF cl] show ?thesis
  proof
    assume ok: "err = None \<and> d = on_disk ?f @ pending ?f"
    then have "d = store_content sfile @ W" using inv by simp
    then show ?thesis using g ok by auto
  next
    assume "\<exists>e. err = Some e \<and> d = on_disk ?f \<and> flush_raises dev (flush_count ?f) = Some e"
    then obtain e where e: "err = Some e" "d = on_disk ?f"
      and fe: "flush_raises dev (flush_count ?f) = Some e" by blast
    have p: "prefix new W" using W by (simp add: prefix_def)
    have nf: "\<not> (\<forall>n. flush_raises dev n = None)" using fe by auto
    have r: "res = Inl e" using g e by simp
    show ?thesis using p nf r g(2) e(2) new by auto
  qed
qed

lemma generate_search_results_no_client:
  assumes "get_client clients env = Inl e"
  shows "generate_search_results lib clients env asc dev sfile tcs = (Inl e, sfile)"
  using assms by (simp add: generate_search_results_def)

subsection \<open>Overwrite and run-ids\<close>

lemma collect_overwrite:
  assumes "allow_overwrite a"
  shows "collect_test_cases skey a sfile entries =
           Inr (if run_ids a then sfile else None, sort_key skey entries)"
  using assms by (cases sfile) (simp_all add: collect_test_cases_def)

lemma main_search_generate:
  assumes "collect_test_cases skey a sfile entries = Inr (sfile1, tcs)" and "tcs \<noteq> []"
    and "generate_search_results lib clients env asc dev sfile1 tcs = (res, sfile2)"
  shows "main_search lib clients env asc dev skey a sfile entries
           = (case res of Inl e \<Rightarrow> Inl e | Inr run \<Rightarrow> Inr (length tcs, search_log run), sfile2)"
  using assms by (cases res) (simp_all add: main_search_def)

lemma main_search_keeps:
  assumes "collect_test_cases skey a sfile entries = Inr (sfile, tcs)"
  shows "(\<exists>new. store_content (snd (main_search lib clients env asc dev skey a sfile entries))
                  = store_content sfile @ new)
       \<and> (sfile \<noteq> None \<longrightarrow> snd (main_search lib clients env asc dev skey a sfile entries) \<noteq> None)"
proof (cases "tcs = []")
  case True
  then show ?thesis using assms by (simp add: main_search_def)
next
  case False
  obtain res sfile2 where g: "generate_search_results lib clients env asc dev sfile tcs = (res, sfile2)"
    by (cases "generate_search_results lib clients env asc dev sfile tcs") auto
  have m: "snd (main_search lib clients env asc dev skey a sfile entries) = sfile2"
    using main_search_generate[OF assms False g] by simp
  show ?thesis
  proof (cases "get_client clients env")
    case (Inl e)
    then have "sfile2 = sfile" using g generate_search_results_no_client[OF Inl] by simp
    then show ?thesis using m by simp
  next
    case (Inr client)
    from generate_search_results_file[OF Inr refl g] obtain d new where
      "sfile2 = Some d" "d = store_content sfile @ new" by blast
    then show ?thesis using m by (simp add: store_content_def)
  qed
qed

text \<open>
  C6. Overwrite. With \<^verbatim>\<open>--allow-overwrite\<close> and without \<^verbatim>\<open>--run-ids\<close>,
  \<open>collect_test_cases\<close> leaves no Result Store file and returns every candidate, sorted
  (the skip set is empty); \<open>main\<close> then submits them all, and the file it leaves holds
  only lines this run wrote, in the order they were written: the lines of the test cases
  whose search, serialisation and write succeeded, all of them when \<open>main\<close> returns,
  which it does when no flush raises.
\<close>

theorem overwrite_semantics:
  assumes "allow_overwrite a" and "\<not> run_ids a"
  shows "collect_test_cases skey a sfile entries = Inr (None, sort_key skey entries)
     \<and> mset (sort_key skey entries) = mset entries
     \<and> (\<forall>client W. get_client clients env = Inr client \<longrightarrow> entries \<noteq> [] \<longrightarrow>
          W = concat (map (written_lines dev)
                        (asc (search_futures lib client env (sort_key skey entries)))) \<longrightarrow>
          (\<exists>d. snd (main_search lib clients env asc dev skey a sfile entries) = Some d
                \<and> prefix d W)
          \<and> (\<forall>n log. fst (main_search lib clients env asc dev skey a sfile entries) = Inr (n, log)
                \<longrightarrow> n = length entries
                    \<and> snd (main_search lib clients env asc dev skey a sfile entries) = Some W)
          \<and> ((\<forall>n. flush_raises dev n = None) \<longrightarrow>
                (\<exists>log. main_search lib clients env asc dev skey a sfile entries
                          = (Inr (length entries, log), Some W))))"
proof -
  let ?S = "sort_key skey entries"
  let ?main = "main_search lib clients env asc dev skey a sfile entries"
  have c: "collect_test_cases skey a sfile entries = Inr (None, ?S)"
    using collect_overwrite[OF assms(1), of skey sfile entries] assms(2) by simp
  have m: "(\<exists>d. snd ?main = Some d \<and> prefix d W)
          \<and> (\<forall>n log. fst ?main = Inr (n, log) \<longrightarrow> n = length entries \<and> snd ?main = Some W)
          \<and> ((\<forall>n. flush_raises dev n = None) \<longrightarrow>
                (\<exists>log. ?main = (Inr (length entries, log), Some W)))"
    if cl: "get_client clients env = Inr client" and ne: "entries \<noteq> []"
      and W: "W = concat (map (written_lines dev) (asc (search_futures lib client env ?S)))"
    for client W
  proof -
    have ne': "?S \<noteq> []" using ne by (metis length_sort list.size(3) length_0_conv)
    obtain res sfile2 where
      g: "generate_search_results lib clients env asc dev None ?S = (res, sfile2)"
      by (cases "generate_search_results lib clients env asc dev None ?S") auto
    have mm: "?main = (case res of Inl e \<Rightarrow> Inl e | Inr run \<Rightarrow> Inr (length ?S, search_log run),
                       sfile2)"
      by (rule main_search_generate[OF c ne' g])
    from generate_search_results_file[OF cl W g] obtain d new where
      d: "sfile2 = Some d" "d = store_content None @ new" and p: "prefix new W"
      and r: "(\<exists>run. res = Inr run) \<longrightarrow> new = W"
      and ok: "(\<forall>n. flush_raises dev n = None) \<longrightarrow> (\<exists>run. res = Inr run)"
      by blast
    have dn: "d = new" using d(2) by (simp add: store_content_def)
    have 1: "\<exists>d. snd ?main = Some d \<and> prefix d W" using mm d(1) dn p by simp
    have 2: "n = length entries \<and> snd ?main = Some W" if "fst ?main = Inr (n, log)" for n log
    proof -
      from that mm obtain run where run: "res = Inr run" by (cases res) simp_all
      then have "new = W" using r by blast
      then show ?thesis using that mm run d(1) dn by simp
    qed
    have 3: "\<exists>log. ?main = (Inr (length entries, log), Some W)"
      if "\<forall>n. flush_raises dev n = None"
    proof -
      from ok that obtain run where run: "res = Inr run" by blast
      then have "new = W" using r by blast
      then show ?thesis using mm run d(1) dn by simp
    qed
    show ?thesis using 1 2 3 by blast
  qed
  show ?thesis using c m by simp
qed

lemma empty_search_A:
  "search_single_test_case example_lib empty_client example_env case_A 10 =
     ([], Inr \<lparr>result_id = ''A'', questions = [], memories = [], mem_context = []\<rparr>)"
  by (simp add: search_single_test_case_def all_questions_def case_A_def)

lemma example_get_client: "get_client (\<lambda>frame. empty_client) example_env = Inr empty_client"
  by (simp add: get_client_def example_env_def)

lemma written_A:
  "written_lines ok_device
     (case_A, [], Inr \<lparr>result_id = ''A'', questions = [], memories = [], mem_context = []\<rparr>)
     = [stored_line ''A'']"
  by (simp add: written_lines_def json_line_def result_value_def stored_line_def ok_device_def)

lemma ok_device_flush: "\<forall>n. flush_raises ok_device n = None"
  by (simp add: ok_device_def)

theorem overwrite_semantics_witness:
  "collect_test_cases by_id_length \<lparr>run_ids = False, allow_overwrite = True, num_threads = 10\<rparr>
      (Some [stored_line ''A'']) [case_A] = Inr (None, [case_A])
   \<and> (\<exists>log. main_search example_lib (\<lambda>frame. empty_client) example_env in_order ok_device
          by_id_length \<lparr>run_ids = False, allow_overwrite = True, num_threads = 10\<rparr>
          (Some [stored_line ''A'']) [case_A]
        = (Inr (1, log), Some [stored_line ''A'']))"
proof -
  let ?a = "\<lparr>run_ids = False, allow_overwrite = True, num_threads = 10\<rparr>"
  have h1: "allow_overwrite ?a" and h2: "\<not> run_ids ?a" by simp_all
  note inst = overwrite_semantics [OF h1 h2, where skey = by_id_length
      and sfile = "Some [stored_line ''A'']" and entries = "[case_A]"
      and clients = "\<lambda>frame. empty_client" and env = example_env and lib = example_lib
      and asc = in_order and dev = ok_device]
  have ne: "[case_A] \<noteq> []" by simp
  note c = inst [THEN conjunct1]
  note m = inst [THEN conjunct2, THEN conjunct2, THEN spec, THEN spec, THEN mp,
                 OF example_get_client, THEN mp, OF ne, THEN mp, OF refl,
                 THEN conjunct2, THEN conjunct2, THEN mp, OF ok_device_flush]
  have s: "sort_key by_id_length [case_A] = [case_A]" by simp
  show ?thesis
    using c m unfolding s
    by (simp add: search_futures_def in_order_def empty_search_A written_A)
qed

text \<open>
  C5, as the code has it. With \<^verbatim>\<open>--run-ids\<close> the involved entries are those of the ID
  file. If \<^verbatim>\<open>--allow-overwrite\<close> is set too, all of them are returned, whatever the
  Result Store holds; if it is not, those whose identifier is stored are left out.
  Either way the file stays, and after \<open>main\<close>, however it ends, the file holds its former
  lines followed by what the run appended.
\<close>

theorem run_ids_semantics:
  assumes "run_ids a"
  shows "snd (get_involved_test_entries id_file parse_arg load_entry category_args (run_ids a))
           = snd id_file
     \<and> (allow_overwrite a \<longrightarrow>
          collect_test_cases skey a sfile entries = Inr (sfile, sort_key skey entries))
     \<and> (\<not> allow_overwrite a \<longrightarrow>
          (\<forall>sfile' tcs. collect_test_cases skey a sfile entries = Inr (sfile', tcs) \<longrightarrow>
             sfile' = sfile
             \<and> tcs = sort_key skey
                      (filter (\<lambda>t. KStr (test_id t) \<notin> stored_ids sfile) entries)))
     \<and> (\<exists>new. store_content (snd (main_search lib clients env asc dev skey a sfile entries))
                 = store_content sfile @ new)
     \<and> (sfile \<noteq> None \<longrightarrow> snd (main_search lib clients env asc dev skey a sfile entries) \<noteq> None)"
proof -
  let ?main = "main_search lib clients env asc dev skey a sfile entries"
  have 1: "snd (get_involved_test_entries id_file parse_arg load_entry category_args (run_ids a))
           = snd id_file"
    using assms by (simp add: get_involved_test_entries_def)
  have 2: "collect_test_cases skey a sfile entries = Inr (sfile, sort_key skey entries)"
    if "allow_overwrite a"
    using collect_overwrite[OF that, of skey sfile entries] assms by simp
  have 3: "sfile' = sfile
             \<and> tcs = sort_key skey
                      (filter (\<lambda>t. KStr (test_id t) \<notin> stored_ids sfile) entries)"
    if "\<not> allow_overwrite a" "collect_test_cases skey a sfile entries = Inr (sfile', tcs)"
    for sfile' tcs
    using collect_no_overwrite_Inr[OF that] .
  have 4: "(\<exists>new. store_content (snd ?main) = store_content sfile @ new)
          \<and> (sfile \<noteq> None \<longrightarrow> snd ?main \<noteq> None)"
  proof (cases "collect_test_cases skey a sfile entries")
    case (Inl e)
    then show ?thesis by (simp add: main_search_def)
  next
    case (Inr p)
    obtain sfile' tcs where p: "p = (sfile', tcs)" by (cases p) auto
    have "sfile' = sfile"
    proof (cases "allow_overwrite a")
      case True
      then show ?thesis using 2 Inr p by simp
    next
      case False
      then show ?thesis using 3 Inr p by simp
    qed
    then have "collect_test_cases skey a sfile entries = Inr (sfile, tcs)" using Inr p by simp
    then show ?thesis by (rule main_search_keeps)
  qed
  show ?thesis using 1 2 3 4 by blast
qed

theorem run_ids_semantics_witness:
  "collect_test_cases by_id_length \<lparr>run_ids = True, allow_overwrite = True, num_threads = 10\<rparr>
      (Some [stored_line ''A'']) [case_A] = Inr (Some [stored_line ''A''], [case_A])"
proof -
  let ?a = "\<lparr>run_ids = True, allow_overwrite = True, num_threads = 10\<rparr>"
  have h1: "run_ids ?a" and h2: "allow_overwrite ?a" by simp_all
  note inst = run_ids_semantics [OF h1, where skey = by_id_length
      and sfile = "Some [stored_line ''A'']" and entries = "[case_A]"]
  note c = inst [THEN conjunct2, THEN conjunct1, THEN mp, OF h2]
  show ?thesis using c by simp
qed

text \<open>
  C5, as the claim states it, fails: with \<^verbatim>\<open>--run-ids\<close> and without
  \<^verbatim>\<open>--allow-overwrite\<close>, the named test case \<^verbatim>\<open>A\<close>, whose identifier is in the Result
  Store, is not returned, and \<open>main\<close> processes nothing.
\<close>

theorem run_ids_without_overwrite_skips:
  "collect_test_cases by_id_length \<lparr>run_ids = True, allow_overwrite = False, num_threads = 10\<rparr>
      (Some [stored_line ''A'']) [case_A] = Inr (Some [stored_line ''A''], [])
   \<and> main_search example_lib (\<lambda>frame. empty_client) example_env in_order ok_device
        by_id_length \<lparr>run_ids = True, allow_overwrite = False, num_threads = 10\<rparr>
        (Some [stored_line ''A'']) [case_A]
      = (Inr (0, []), Some [stored_line ''A''])"
  by (simp add: main_search_def collect_test_cases_def stored_line_def)

subsection \<open>Context construction\<close>







subsection \<open>The ingestion loop\<close>

lemma ingest_step_fields:
  "completed_count (ingest_step dev st fut) = completed_count st + (if succeeded fut then 1 else 0)"
  "total_to_process (ingest_step dev st fut) = total_to_process st"
  "ingest_pbar (ingest_step dev st fut) = ingest_pbar st + 1"
  by (cases fut; simp add: ingest_step_def succeeded_def Let_def
        split: sum.splits option.splits prod.splits)+

lemma ingest_step_ledger:
  assumes "ledger st = Some f"
  shows "\<exists>f'. ledger (ingest_step dev st fut) = Some f'
            \<and> on_disk f' @ pending f' = on_disk f @ pending f @ ledger_written dev fut"
proof -
  obtain c outcome where fut: "fut = (c, outcome)" by (cases fut) auto
  show ?thesis
  proof (cases outcome)
    case (Inl e)
    then show ?thesis using assms by (simp add: fut ingest_step_def ledger_written_def)
  next
    case (Inr u)
    show ?thesis
    proof (cases "file_write dev (sample_id c @ newline) f")
      case (Inl e)
      then show ?thesis using assms Inr file_write_Inl[OF Inl]
        by (simp add: fut ingest_step_def ledger_written_def)
    next
      case f1: (Inr f1)
      obtain f2 err where fl: "file_flush dev f1 = (f2, err)" by (cases "file_flush dev f1") auto
      have l: "ledger (ingest_step dev st fut) = Some f2"
        using assms Inr f1 fl by (cases err) (simp_all add: fut ingest_step_def)
      have "on_disk f2 @ pending f2 = on_disk f @ pending f @ [sample_id c @ newline]"
        using file_flush_written[OF fl] file_write_Inr[OF f1] by simp
      moreover have "ledger_written dev fut = [sample_id c @ newline]"
        using Inr file_write_Inr[OF f1] by (simp add: fut ledger_written_def)
      ultimately show ?thesis using l by simp
    qed
  qed
qed

lemma ingest_step_ledger_ok:
  assumes "ledger st = Some f" and "pending f = []"
    and "\<forall>line. write_raises dev line = None" and "\<forall>n. flush_raises dev n = None"
  shows "\<exists>f'. ledger (ingest_step dev st fut) = Some f' \<and> pending f' = []
            \<and> on_disk f' = on_disk f @ (if succeeded fut then [sample_id (fst fut) @ newline] else [])"
proof -
  obtain c outcome where fut: "fut = (c, outcome)" by (cases fut) auto
  show ?thesis
  proof (cases outcome)
    case (Inl e)
    then show ?thesis using assms by (simp add: fut ingest_step_def succeeded_def)
  next
    case (Inr u)
    then show ?thesis using assms
      by (simp add: fut ingest_step_def succeeded_def file_write_def file_flush_def)
  qed
qed

lemma ingest_step_console:
  "\<exists>more. console (ingest_step dev st fut) = console st @ more"
  by (cases fut)
     (auto simp: ingest_step_def Let_def split: sum.splits option.splits prod.splits)

lemma ingest_step_console_failure:
  "ConversationError (sample_id c) e \<in> set (console (ingest_step dev st (c, Inl e)))"
  by (simp add: ingest_step_def)

lemma foldl_ingest_step:
  "completed_count (foldl (ingest_step dev) st futs)
     = completed_count st + length (filter succeeded futs)"
  "total_to_process (foldl (ingest_step dev) st futs) = total_to_process st"
  "ingest_pbar (foldl (ingest_step dev) st futs) = ingest_pbar st + length futs"
  by (induction futs arbitrary: st; simp add: ingest_step_fields)+

lemma foldl_ingest_step_ledger:
  assumes "ledger st = Some f"
  shows "\<exists>f'. ledger (foldl (ingest_step dev) st futs) = Some f'
            \<and> on_disk f' @ pending f'
                = on_disk f @ pending f @ concat (map (ledger_written dev) futs)"
  using assms
proof (induction futs arbitrary: st f)
  case Nil
  then show ?case by simp
next
  case (Cons fut futs)
  from ingest_step_ledger[OF Cons.prems, of dev fut] obtain f1 where
    1: "ledger (ingest_step dev st fut) = Some f1"
    and 2: "on_disk f1 @ pending f1 = on_disk f @ pending f @ ledger_written dev fut"
    by blast
  from Cons.IH[OF 1] obtain f' where
    3: "ledger (foldl (ingest_step dev) (ingest_step dev st fut) futs) = Some f'"
    and 4: "on_disk f' @ pending f'
              = on_disk f1 @ pending f1 @ concat (map (ledger_written dev) futs)"
    by blast
  have "on_disk f' @ pending f'
          = on_disk f @ pending f @ concat (map (ledger_written dev) (fut # futs))"
  proof -
    have "on_disk f' @ pending f'
            = (on_disk f1 @ pending f1) @ concat (map (ledger_written dev) futs)"
      using 4 by simp
    also have "\<dots> = (on_disk f @ pending f @ ledger_written dev fut)
                       @ concat (map (ledger_written dev) futs)"
      by (simp only: 2)
    finally show ?thesis by simp
  qed
  then show ?case using 3 by simp
qed

lemma foldl_ingest_step_ledger_ok:
  assumes "ledger st = Some f" and "pending f = []"
    and "\<forall>line. write_raises dev line = None" and "\<forall>n. flush_raises dev n = None"
  shows "\<exists>f'. ledger (foldl (ingest_step dev) st futs) = Some f' \<and> pending f' = []
            \<and> on_disk f' = on_disk f
                 @ map (\<lambda>fut. sample_id (fst fut) @ newline) (filter succeeded futs)"
  using assms(1,2)
proof (induction futs arbitrary: st f)
  case Nil
  then show ?case by simp
next
  case (Cons fut futs)
  from ingest_step_ledger_ok[OF Cons.prems assms(3,4), of fut] obtain f1 where
    1: "ledger (ingest_step dev st fut) = Some f1" and 2: "pending f1 = []"
    and 3: "on_disk f1 = on_disk f @ (if succeeded fut then [sample_id (fst fut) @ newline] else [])"
    by blast
  from Cons.IH[OF 1 2] obtain f' where
    "ledger (foldl (ingest_step dev) (ingest_step dev st fut) futs) = Some f'" "pending f' = []"
    "on_disk f' = on_disk f1 @ map (\<lambda>fut. sample_id (fst fut) @ newline) (filter succeeded futs)"
    by blast
  then show ?case using 3 by simp
qed

lemma foldl_ingest_step_console_mono:
  "\<exists>more. console (foldl (ingest_step dev) st futs) = console st @ more"
proof (induction futs arbitrary: st)
  case Nil
  then show ?case by simp
next
  case (Cons fut futs)
  from Cons[of "ingest_step dev st fut"] obtain m1 where
    1: "console (foldl (ingest_step dev) (ingest_step dev st fut) futs)
          = console (ingest_step dev st fut) @ m1" by blast
  from ingest_step_console[of dev st fut] obtain m2 where
    2: "console (ingest_step dev st fut) = console st @ m2" by blast
  show ?case using 1 2 by simp
qed

lemma foldl_ingest_step_console_failure:
  assumes "(c, Inl e) \<in> set futs"
  shows "ConversationError (sample_id c) e \<in> set (console (foldl (ingest_step dev) st futs))"
  using assms
proof (induction futs arbitrary: st)
  case Nil
  then show ?case by simp
next
  case (Cons fut futs)
  show ?case
  proof (cases "fut = (c, Inl e)")
    case True
    from foldl_ingest_step_console_mono[of dev "ingest_step dev st fut" futs] obtain more where
      "console (foldl (ingest_step dev) (ingest_step dev st fut) futs)
         = console (ingest_step dev st fut) @ more" by blast
    then show ?thesis using True ingest_step_console_failure[of c e dev st] by simp
  next
    case False
    then have "(c, Inl e) \<in> set futs" using Cons.prems by simp
    from Cons.IH[OF this] show ?thesis by simp
  qed
qed

lemma length_filter_mset:
  assumes "mset xs = mset ys"
  shows "length (filter P xs) = length (filter P ys)"
proof -
  have "size (filter_mset P (mset xs)) = size (filter_mset P (mset ys))"
    using assms by simp
  then show ?thesis by (simp flip: mset_filter)
qed

text \<open>
  C3. Failure isolation. Whatever the order in which the futures complete, every
  submitted future is handled (none is cancelled), the completion count is the number of
  conversations whose processing returned, each failure is printed with the
  \<^verbatim>\<open>sample_id\<close> of its conversation and writes no line to the record file, and when
  the writes and flushes succeed the lines added to the file are the identifiers of the
  conversations that succeeded.
\<close>

theorem failure_isolation:
  assumes "futs = future_to_conversation data client frame env clk success_records"
    and "run = ingest_conversation data client frame env clk success_records dev f as_completed"
    and "mset (as_completed futs) = mset futs"
  shows "completed_count run = length (filter succeeded futs)
     \<and> total_to_process run = length futs
     \<and> ingest_pbar run = length futs
     \<and> (\<forall>fl. f = Some fl \<longrightarrow>
           (\<exists>fl'. ledger run = Some fl'
              \<and> on_disk fl' @ pending fl'
                  = on_disk fl @ pending fl
                    @ concat (map (ledger_written dev) (as_completed futs))))
     \<and> (\<forall>c e. (c, Inl e) \<in> set futs \<longrightarrow>
           ConversationError (sample_id c) e \<in> set (console run)
           \<and> ledger_written dev (c, Inl e) = [])
     \<and> (\<forall>fl. f = Some fl \<longrightarrow> pending fl = [] \<longrightarrow> (\<forall>line. write_raises dev line = None) \<longrightarrow>
           (\<forall>n. flush_raises dev n = None) \<longrightarrow>
           (\<exists>fl'. ledger run = Some fl' \<and> pending fl' = []
              \<and> on_disk fl' = on_disk fl
                   @ map (\<lambda>fut. sample_id (fst fut) @ newline)
                       (filter succeeded (as_completed futs))
              \<and> mset (on_disk fl')
                  = mset (on_disk fl)
                    + mset (map (\<lambda>fut. sample_id (fst fut) @ newline) (filter succeeded futs))))"
proof -
  let ?st0 = "\<lparr>completed_count = 0, total_to_process = length futs, ledger = f,
               ingest_pbar = 0, console = []\<rparr>"
  have run: "run = foldl (ingest_step dev) ?st0 (as_completed futs)"
    using assms(1,2) by (simp add: ingest_conversation_def Let_def)
  have 1: "completed_count run = length (filter succeeded futs)"
    unfolding run using length_filter_mset[OF assms(3)] by (simp add: foldl_ingest_step)
  have 2: "total_to_process run = length futs"
    unfolding run by (simp add: foldl_ingest_step)
  have "length (as_completed futs) = length futs" using assms(3) by (metis size_mset)
  then have 3: "ingest_pbar run = length futs"
    unfolding run by (simp add: foldl_ingest_step)
  have 4: "\<exists>fl'. ledger run = Some fl'
              \<and> on_disk fl' @ pending fl'
                  = on_disk fl @ pending fl
                    @ concat (map (ledger_written dev) (as_completed futs))"
    if "f = Some fl" for fl
    unfolding run using foldl_ingest_step_ledger[of ?st0 fl dev "as_completed futs"] that by simp
  have 5: "ConversationError (sample_id c) e \<in> set (console run)
           \<and> ledger_written dev (c, Inl e) = []" if "(c, Inl e) \<in> set futs" for c e
  proof -
    from that assms(3) have "(c, Inl e) \<in> set (as_completed futs)"
      by (metis set_mset_mset)
    from foldl_ingest_step_console_failure[OF this]
    show ?thesis unfolding run by (simp add: ledger_written_def)
  qed
  have 6: "\<exists>fl'. ledger run = Some fl' \<and> pending fl' = []
              \<and> on_disk fl' = on_disk fl
                   @ map (\<lambda>fut. sample_id (fst fut) @ newline)
                       (filter succeeded (as_completed futs))
              \<and> mset (on_disk fl')
                  = mset (on_disk fl)
                    + mset (map (\<lambda>fut. sample_id (fst fut) @ newline) (filter succeeded futs))"
    if f: "f = Some fl" and p: "pending fl = []" and w: "\<forall>line. write_raises dev line = None"
      and fo: "\<forall>n. flush_raises dev n = None" for fl
  proof -
    have l0: "ledger ?st0 = Some fl" using f by simp
    from foldl_ingest_step_ledger_ok[OF l0 p w fo, of "as_completed futs"] obtain fl' where
      a: "ledger run = Some fl'" and b: "pending fl' = []"
      and c: "on_disk fl' = on_disk fl
                   @ map (\<lambda>fut. sample_id (fst fut) @ newline)
                       (filter succeeded (as_completed futs))"
      unfolding run by blast
    have "mset (filter succeeded (as_completed futs)) = mset (filter succeeded futs)"
      by (simp add: assms(3))
    then have "mset (map (\<lambda>fut. sample_id (fst fut) @ newline) (filter succeeded (as_completed futs)))
             = mset (map (\<lambda>fut. sample_id (fst fut) @ newline) (filter succeeded futs))"
      by (metis mset_map)
    then have "mset (on_disk fl')
                  = mset (on_disk fl)
                    + mset (map (\<lambda>fut. sample_id (fst fut) @ newline) (filter succeeded futs))"
      unfolding c by simp
    then show ?thesis using a b c by blast
  qed
  show ?thesis using 1 2 3 4 5 6 by blast
qed

lemma example_ingest_futures:
  "future_to_conversation [conv_A, conv_B, conv_C] failing_B_client ''mem0'' Map.empty
     example_clock []
   = [(conv_A, Inr ()), (conv_B, Inl (BackendError ''unavailable'')), (conv_C, Inr ())]"
  by (simp add: future_to_conversation_def process_single_conversation_def ingest_user_id_def
        getenv_default_def failing_B_client_def Let_def)

lemma ok_device_write: "\<forall>line. write_raises ok_device line = None"
  by (simp add: ok_device_def)

theorem failure_isolation_witness:
  "completed_count (ingest_conversation [conv_A, conv_B, conv_C] failing_B_client ''mem0''
       Map.empty example_clock [] ok_device (Some (open_append None)) reversed) = 2
   \<and> total_to_process (ingest_conversation [conv_A, conv_B, conv_C] failing_B_client ''mem0''
       Map.empty example_clock [] ok_device (Some (open_append None)) reversed) = 3
   \<and> map_option on_disk (ledger (ingest_conversation [conv_A, conv_B, conv_C] failing_B_client
       ''mem0'' Map.empty example_clock [] ok_device (Some (open_append None)) reversed))
       = Some [''C'' @ newline, ''A'' @ newline]
   \<and> ConversationError ''B'' (BackendError ''unavailable'')
       \<in> set (console (ingest_conversation [conv_A, conv_B, conv_C] failing_B_client ''mem0''
                Map.empty example_clock [] ok_device (Some (open_append None)) reversed))"
proof -
  let ?futs = "future_to_conversation [conv_A, conv_B, conv_C] failing_B_client ''mem0'' Map.empty
     example_clock []"
  let ?f0 = "open_append None :: string pyfile"
  have perm: "mset (reversed ?futs) = mset ?futs" by (simp add: reversed_def)
  note inst = failure_isolation [where futs = "?futs" and as_completed = reversed
      and f = "Some ?f0" and dev = ok_device and data = "[conv_A, conv_B, conv_C]"
      and client = failing_B_client and frame = "''mem0''" and env = Map.empty
      and clk = example_clock and success_records = "[]", OF refl refl perm]
  have p0: "pending ?f0 = []" by (simp add: open_append_def)
  note c1 = inst [THEN conjunct1]
  note c2 = inst [THEN conjunct2, THEN conjunct1]
  note c5 = inst [THEN conjunct2, THEN conjunct2, THEN conjunct2, THEN conjunct2, THEN conjunct1,
                  THEN spec, THEN spec, THEN mp, of conv_B "BackendError ''unavailable''"]
  note c6 = inst [THEN conjunct2, THEN conjunct2, THEN conjunct2, THEN conjunct2, THEN conjunct2,
                  THEN spec, THEN mp, OF refl, THEN mp, OF p0, THEN mp, OF ok_device_write,
                  THEN mp, OF ok_device_flush]
  have mem: "(conv_B, Inl (BackendError ''unavailable'')) \<in> set ?futs"
    unfolding example_ingest_futures by simp
  have s: "filter succeeded [(conv_A, Inr ()), (conv_B, Inl (BackendError ''unavailable'')),
                             (conv_C, Inr ())] = [(conv_A, Inr ()), (conv_C, Inr ())]"
    by (simp add: succeeded_def)
  have s': "filter succeeded (reversed [(conv_A, Inr ()), (conv_B, Inl (BackendError ''unavailable'')),
                             (conv_C, Inr ())]) = [(conv_C, Inr ()), (conv_A, Inr ())]"
    by (simp add: succeeded_def reversed_def)
  from c6 obtain fl' where
    l: "ledger (ingest_conversation [conv_A, conv_B, conv_C] failing_B_client ''mem0''
           Map.empty example_clock [] ok_device (Some ?f0) reversed) = Some fl'"
    and d: "on_disk fl' = on_disk ?f0
              @ map (\<lambda>fut. sample_id (fst fut) @ newline) (filter succeeded (reversed ?futs))"
    by blast
  have d': "on_disk fl' = [''C'' @ newline, ''A'' @ newline]"
    using d unfolding example_ingest_futures s' by (simp add: open_append_def)
  show ?thesis
    using c1 c2 c5[OF mem] l d' unfolding example_ingest_futures s by simp
qed

subsection \<open>Write and flush failures\<close>










subsection \<open>Session keys and truncation\<close>

lemma process_single_conversation_call:
  assumes "frame \<in> set valid_frames"
  shows "\<exists>call. process_single_conversation c client frame env clk = client call
               \<and> add_user_id call = ingest_user_id env frame c"
proof -
  let ?u = "ingest_user_id env frame c"
  let ?t = "trajectory c"
  from assms have d: "frame = ''memobase'' \<or> frame = ''memos-api'' \<or> frame = ''memos-api-online''
      \<or> frame = ''memu'' \<or> frame = ''supermemory'' \<or> frame = ''mem0''"
    by (simp add: valid_frames_def)
  have c1: ?thesis if f: "frame = ''memobase''"
    by (rule exI[of _ "AddMessages (build_messages clk ?t) ?u"])
       (simp add: process_single_conversation_def Let_def f)
  have c2: ?thesis if f: "frame = ''memos-api''"
    by (rule exI[of _ "AddConv ?t ?u []"]) (simp add: process_single_conversation_def Let_def f)
  have c3: ?thesis if f: "frame = ''memos-api-online''"
    by (rule exI[of _ "AddTrajectory ?t ?u"]) (simp add: process_single_conversation_def Let_def f)
  have c4: ?thesis if f: "frame = ''memu''"
    by (rule exI[of _ "AddAtTime ?t ?u (now_iso clk 0)"])
       (simp add: process_single_conversation_def Let_def f)
  have c5: ?thesis if f: "frame = ''supermemory''"
    by (rule exI[of _ "AddMessages (build_messages clk ?t) ?u"])
       (simp add: process_single_conversation_def Let_def f)
  have c6: ?thesis if f: "frame = ''mem0''"
    by (rule exI[of _ "AddAtTimestamp ?t ?u (now_timestamp clk)"])
       (simp add: process_single_conversation_def Let_def f)
  from d show ?thesis
    by (elim disjE) (erule c1 c2 c3 c4 c5 c6)+
qed

lemma search_memory_key:
  assumes "env ''FRAME'' = Some frame"
  shows "search_memory sclient env q tid k
           = (case sclient q (session_key tid frame (run_version env)) k of
                Inl e \<Rightarrow> Inl e
              | Inr rsp \<Rightarrow> search_memory (answering (Inr rsp)) env q tid k)"
  using assms
  by (simp add: search_memory_def answering_def session_key_def run_version_def
        getenv_default_def fmt_opt_def Let_def split: sum.splits)

lemma search_memory_answering:
  "search_memory (answering (Inl e)) env q tid k = Inl e"
  "env ''FRAME'' = Some ''mem0'' \<Longrightarrow>
     search_memory (answering (Inr rsp)) env q tid k = py_getitem rsp ''results''"
  "env ''FRAME'' = Some ''supermemory'' \<Longrightarrow>
     search_memory (answering (Inr rsp)) env q tid k = py_getattr rsp ''results''"
  by (simp_all add: search_memory_def answering_def Let_def)

text \<open>
  C8. Session key. In both scripts the key is the task identifier, the backend kind and
  the version joined by underscores, the version being the \<^verbatim>\<open>VERSION\<close> environment value
  or \<^verbatim>\<open>default_version\<close>. Ingestion takes the backend kind from its argument, search
  from the \<^verbatim>\<open>FRAME\<close> environment value. \<open>process_single_conversation\<close> hands the key of
  its conversation to \<^verbatim>\<open>client.add\<close>. \<open>search_memory\<close> calls \<^verbatim>\<open>client.search\<close> with the
  query, the key of its test entry and \<open>top_k\<close>: an exception of that call is the
  exception of \<open>search_memory\<close>, its answer is what the memories are taken from, and no
  call under another key matters. When the backend kinds agree and \<^verbatim>\<open>VERSION\<close> is the
  same, the two keys of one task are equal.
\<close>

theorem session_key_stable:
  assumes "env_s ''FRAME'' = Some frame"
    and "env_s ''VERSION'' = env_i ''VERSION''"
    and "frame \<in> set valid_frames"
    and "key = session_key tid frame (run_version env_s)"
  shows "ingest_user_id env_i frame c = session_key (sample_id c) frame (run_version env_i)
     \<and> key = tid @ ''_'' @ frame @ ''_''
               @ (case env_s ''VERSION'' of None \<Rightarrow> ''default_version'' | Some v \<Rightarrow> v)
     \<and> (\<exists>call. process_single_conversation c client frame env_i clk = client call
                \<and> add_user_id call = session_key (sample_id c) frame (run_version env_i))
     \<and> (\<forall>e. sclient q key k = Inl e \<longrightarrow> search_memory sclient env_s q tid k = Inl e)
     \<and> (\<forall>rsp. sclient q key k = Inr rsp \<longrightarrow>
           search_memory sclient env_s q tid k = search_memory (answering (Inr rsp)) env_s q tid k)
     \<and> (frame = ''mem0'' \<longrightarrow>
          (\<forall>rsp. sclient q key k = Inr rsp \<longrightarrow>
             search_memory sclient env_s q tid k = py_getitem rsp ''results''))
     \<and> (frame = ''supermemory'' \<longrightarrow>
          (\<forall>rsp. sclient q key k = Inr rsp \<longrightarrow>
             search_memory sclient env_s q tid k = py_getattr rsp ''results''))
     \<and> search_memory sclient env_s q tid k = search_memory (only_session key sclient) env_s q tid k
     \<and> (sample_id c = tid \<longrightarrow> session_key (sample_id c) frame (run_version env_i) = key)"
proof -
  have v: "run_version env_s = run_version env_i"
    using assms(2) by (simp add: run_version_def)
  have i: "ingest_user_id env_i frame c = session_key (sample_id c) frame (run_version env_i)"
    by (simp add: ingest_user_id_def session_key_def run_version_def getenv_default_def Let_def)
  have t: "key = tid @ ''_'' @ frame @ ''_''
               @ (case env_s ''VERSION'' of None \<Rightarrow> ''default_version'' | Some v \<Rightarrow> v)"
    using assms(4) by (simp add: session_key_def run_version_def)
  have p: "\<exists>call. process_single_conversation c client frame env_i clk = client call
                \<and> add_user_id call = session_key (sample_id c) frame (run_version env_i)"
    using process_single_conversation_call[OF assms(3), of c client env_i clk] i by simp
  note sk = search_memory_key[where env = env_s and frame = frame and sclient = sclient
      and q = q and tid = tid and k = k, OF assms(1), folded assms(4)]
  have e: "search_memory sclient env_s q tid k = Inl e" if "sclient q key k = Inl e" for e
    using sk that by simp
  have r: "search_memory sclient env_s q tid k
             = search_memory (answering (Inr rsp)) env_s q tid k"
    if "sclient q key k = Inr rsp" for rsp
    using sk that by simp
  have m: "search_memory sclient env_s q tid k = py_getitem rsp ''results''"
    if "frame = ''mem0''" "sclient q key k = Inr rsp" for rsp
    using r[OF that(2)] search_memory_answering(2)[of env_s rsp q tid k] assms(1) that(1) by simp
  have s: "search_memory sclient env_s q tid k = py_getattr rsp ''results''"
    if "frame = ''supermemory''" "sclient q key k = Inr rsp" for rsp
    using r[OF that(2)] search_memory_answering(3)[of env_s rsp q tid k] assms(1) that(1) by simp
  have o: "search_memory sclient env_s q tid k
             = search_memory (only_session key sclient) env_s q tid k"
  proof -
    have "only_session key sclient q key k = sclient q key k" by (simp add: only_session_def)
    then show ?thesis
      using sk search_memory_key[where env = env_s and frame = frame
          and sclient = "only_session key sclient" and q = q and tid = tid and k = k,
          OF assms(1), folded assms(4)]
      by simp
  qed
  have st: "sample_id c = tid \<longrightarrow> session_key (sample_id c) frame (run_version env_i) = key"
    using assms(4) v by simp
  show ?thesis
    apply (intro conjI allI impI)
            apply (rule i)
           apply (rule t)
          apply (rule p)
         apply (erule e)
        apply (erule r)
       apply (erule m, assumption)
      apply (erule s, assumption)
     apply (rule o)
    apply (erule st[rule_format])
    done
qed

theorem session_key_stable_witness:
  "ingest_user_id Map.empty ''mem0'' conv_A = ''A_mem0_default_version''
   \<and> search_memory keyed_client example_env ''q'' ''A'' 10
       = Inr (PList [PDict [(''id'', PStr ''q'')]])"
proof -
  have h1: "example_env ''FRAME'' = Some ''mem0''" by (simp add: example_env_def)
  have h2: "example_env ''VERSION'' = Map.empty ''VERSION''" by (simp add: example_env_def)
  have h3: "''mem0'' \<in> set valid_frames" by (simp add: valid_frames_def)
  have key: "session_key ''A'' ''mem0'' (run_version example_env) = ''A_mem0_default_version''"
    "session_key (sample_id conv_A) ''mem0'' (run_version Map.empty) = ''A_mem0_default_version''"
    by (simp_all add: session_key_def run_version_def example_env_def)
  note inst = session_key_stable [OF h1 h2 h3 refl, where c = conv_A and tid = "''A''"
      and sclient = keyed_client and q = "''q''" and k = 10]
  have ans: "keyed_client ''q'' (session_key ''A'' ''mem0'' (run_version example_env)) 10
               = Inr (PDict [(''results'', PList [PDict [(''id'', PStr ''q'')]])])"
    unfolding key by (simp add: keyed_client_def)
  note c1 = inst [THEN conjunct1]
  note c6 = inst [THEN conjunct2, THEN conjunct2, THEN conjunct2, THEN conjunct2, THEN conjunct2,
                  THEN conjunct1, THEN mp, OF refl, THEN spec, THEN mp, OF ans]
  show ?thesis
    using c1 c6 unfolding key by simp
qed

lemma build_messages_aux:
  "map content (map (\<lambda>p. case p of (idx, msg) \<Rightarrow>
            \<lparr>role = role msg, content = take 8000 (content msg), chat_time = now_iso clk idx\<rparr>)
       (enumerate n traj)) = map (\<lambda>msg. take 8000 (content msg)) traj
   \<and> map role (map (\<lambda>p. case p of (idx, msg) \<Rightarrow>
            \<lparr>role = role msg, content = take 8000 (content msg), chat_time = now_iso clk idx\<rparr>)
       (enumerate n traj)) = map role traj"
  by (induction traj arbitrary: n) simp_all

lemma build_messages_content:
  "map content (build_messages clk traj) = map (\<lambda>msg. take 8000 (content msg)) traj"
  "map role (build_messages clk traj) = map role traj"
  using build_messages_aux[of clk 0 traj] by (simp_all add: build_messages_def)

text \<open>
  C9. Truncation. For \<^verbatim>\<open>memobase\<close> and \<^verbatim>\<open>supermemory\<close> the messages handed to
  \<^verbatim>\<open>client.add\<close> carry the roles of the trajectory and, as content, the first 8000
  characters of each message's content. For \<^verbatim>\<open>memos-api\<close>, \<^verbatim>\<open>memos-api-online\<close>,
  \<^verbatim>\<open>memu\<close> and \<^verbatim>\<open>mem0\<close> the trajectory itself is handed over.
\<close>

theorem content_truncation:
  "(frame = ''memobase'' \<or> frame = ''supermemory'' \<longrightarrow>
       process_single_conversation c client frame env clk
         = client (AddMessages (build_messages clk (trajectory c)) (ingest_user_id env frame c))
       \<and> map content (build_messages clk (trajectory c))
           = map (\<lambda>msg. take 8000 (content msg)) (trajectory c)
       \<and> map role (build_messages clk (trajectory c)) = map role (trajectory c)
       \<and> (\<forall>m \<in> set (build_messages clk (trajectory c)). length (content m) \<le> 8000))
   \<and> (frame = ''memos-api'' \<longrightarrow>
       process_single_conversation c client frame env clk
         = client (AddConv (trajectory c) (ingest_user_id env frame c) []))
   \<and> (frame = ''memos-api-online'' \<longrightarrow>
       process_single_conversation c client frame env clk
         = client (AddTrajectory (trajectory c) (ingest_user_id env frame c)))
   \<and> (frame = ''memu'' \<longrightarrow>
       process_single_conversation c client frame env clk
         = client (AddAtTime (trajectory c) (ingest_user_id env frame c) (now_iso clk 0)))
   \<and> (frame = ''mem0'' \<longrightarrow>
       process_single_conversation c client frame env clk
         = client (AddAtTimestamp (trajectory c) (ingest_user_id env frame c)
                     (now_timestamp clk)))"
proof -
  have len: "\<forall>m \<in> set (build_messages clk (trajectory c)). length (content m) \<le> 8000"
  proof
    fix m assume "m \<in> set (build_messages clk (trajectory c))"
    then have "content m \<in> set (map content (build_messages clk (trajectory c)))" by simp
    then have "content m \<in> set (map (\<lambda>msg. take 8000 (content msg)) (trajectory c))"
      by (simp only: build_messages_content)
    then show "length (content m) \<le> 8000" by auto
  qed
  have a: "frame = ''memobase'' \<or> frame = ''supermemory'' \<Longrightarrow>
       process_single_conversation c client frame env clk
         = client (AddMessages (build_messages clk (trajectory c)) (ingest_user_id env frame c))"
    by (elim disjE) (simp_all add: process_single_conversation_def Let_def)
  have b: "frame = ''memos-api'' \<Longrightarrow>
       process_single_conversation c client frame env clk
         = client (AddConv (trajectory c) (ingest_user_id env frame c) [])"
    by (simp add: process_single_conversation_def Let_def)
  have c: "frame = ''memos-api-online'' \<Longrightarrow>
       process_single_conversation c client frame env clk
         = client (AddTrajectory (trajectory c) (ingest_user_id env frame c))"
    by (simp add: process_single_conversation_def Let_def)
  have d: "frame = ''memu'' \<Longrightarrow>
       process_single_conversation c client frame env clk
         = client (AddAtTime (trajectory c) (ingest_user_id env frame c) (now_iso clk 0))"
    by (simp add: process_single_conversation_def Let_def)
  have e: "frame = ''mem0'' \<Longrightarrow>
       process_single_conversation c client frame env clk
         = client (AddAtTimestamp (trajectory c) (ingest_user_id env frame c)
                     (now_timestamp clk))"
    by (simp add: process_single_conversation_def Let_def)
  show ?thesis
    using a b c d e len build_messages_content[of clk "trajectory c"] by blast
qed

theorem content_truncation_witness:
  "map content (build_messages example_clock (trajectory long_conversation))
     = [replicate 8000 (CHR ''x''), ''ok'']
   \<and> process_single_conversation long_conversation ok_client ''mem0'' Map.empty example_clock
       = ok_client (AddAtTimestamp
           [\<lparr>role = ''user'', content = replicate 8001 (CHR ''x'')\<rparr>,
            \<lparr>role = ''assistant'', content = ''ok''\<rparr>]
           ''L_mem0_default_version'' 1735689600)"
proof -
  have h1: "''memobase'' = ''memobase'' \<or> ''memobase'' = ''supermemory''" by simp
  note inst1 = content_truncation [where frame = "''memobase''" and c = long_conversation
      and clk = example_clock and client = ok_client and env = Map.empty]
  note inst2 = content_truncation [where frame = "''mem0''" and c = long_conversation
      and clk = example_clock and client = ok_client and env = Map.empty]
  note t = inst1 [THEN conjunct1, THEN mp, OF h1, THEN conjunct2, THEN conjunct1]
  note p = inst2 [THEN conjunct2, THEN conjunct2, THEN conjunct2, THEN conjunct2, THEN mp, OF refl]
  have tr: "trajectory long_conversation
              = [\<lparr>role = ''user'', content = replicate 8001 (CHR ''x'')\<rparr>,
                 \<lparr>role = ''assistant'', content = ''ok''\<rparr>]"
    by (simp add: long_conversation_def)
  have u: "ingest_user_id Map.empty ''mem0'' long_conversation = ''L_mem0_default_version''"
    by (simp add: ingest_user_id_def getenv_default_def long_conversation_def)
  have ts: "now_timestamp example_clock = 1735689600" by (simp add: example_clock_def)
  show ?thesis
    using t p unfolding tr u ts by simp
qed

end
